theory Spec2Isabelle
  imports Main
begin

section \<open>Python values the highlighter works with\<close>

text \<open>
  The module is Python 2: a text is a byte string (\<open>str\<close>; a \<open>unicode\<close> text is encoded
  to UTF-8 first, lines 53-54 and 148-149), so a text is a \<^typ>\<open>string\<close>, one
  \<^typ>\<open>char\<close> per byte. Exceptions are values: a function that can raise returns
  \<open>exn + 'a\<close>, with \<open>Inl\<close> the exception.
\<close>

datatype exn = IndexError | TypeError | UnboundLocalError | ValueError | OtherError string

definition WINDOW :: int where
  "WINDOW = 50"

subsection \<open>Character classes of the \<open>re\<close> module on byte strings\<close>

definition is_digit :: "char \<Rightarrow> bool" where
  "is_digit c = (let k = (of_char c :: nat) in 48 \<le> k \<and> k \<le> 57)"

definition is_word :: "char \<Rightarrow> bool" where
  "is_word c = (let k = (of_char c :: nat) in
     (48 \<le> k \<and> k \<le> 57) \<or> (65 \<le> k \<and> k \<le> 90) \<or> (97 \<le> k \<and> k \<le> 122) \<or> k = 95)"

definition is_space :: "char \<Rightarrow> bool" where
  "is_space c = (let k = (of_char c :: nat) in k = 32 \<or> (9 \<le> k \<and> k \<le> 13))"

datatype citem = Chr char | Word | Digit | Space

fun in_item :: "citem \<Rightarrow> char \<Rightarrow> bool" where
  "in_item (Chr x) c = (c = x)"
| "in_item Word c = is_word c"
| "in_item Digit c = is_digit c"
| "in_item Space c = is_space c"

datatype cclass = Is citem | AnyOf "citem list" | NoneOf "citem list"

fun in_class :: "cclass \<Rightarrow> char \<Rightarrow> bool" where
  "in_class (Is i) c = in_item i c"
| "in_class (AnyOf is) c = list_ex (\<lambda>i. in_item i c) is"
| "in_class (NoneOf is) c = (\<not> list_ex (\<lambda>i. in_item i c) is)"

subsection \<open>Regular expressions: alternatives of sequences of greedy repetitions\<close>

text \<open>
  Both patterns of the module are an alternation of sequences, each element of a sequence
  one character class under a greedy quantifier: \<open>Rep c lo hi\<close> is \<open>c{lo,hi}\<close>, with
  \<open>hi = None\<close> for no upper bound. The matcher is the backtracking one of \<open>re\<close>: a
  repetition first takes as many characters as it can and gives them back one at a time
  while the rest of the sequence fails; the alternatives are tried in order.
\<close>

datatype piece = Rep cclass nat "nat option"

definition one :: "citem \<Rightarrow> piece" where
  "one i = Rep (Is i) 1 (Some 1)"

definition plus_of :: "cclass \<Rightarrow> piece" where
  "plus_of c = Rep c 1 None"

definition star_of :: "cclass \<Rightarrow> piece" where
  "star_of c = Rep c 0 None"

definition span_of :: "(char \<Rightarrow> bool) \<Rightarrow> nat option \<Rightarrow> string \<Rightarrow> nat" where
  "span_of p hi s = length (takeWhile p (case hi of None \<Rightarrow> s | Some h \<Rightarrow> take h s))"

fun backtrack :: "(nat \<Rightarrow> nat option) \<Rightarrow> nat \<Rightarrow> nat \<Rightarrow> nat option" where
  "backtrack f lo 0 = (if lo = 0 then f 0 else None)"
| "backtrack f lo (Suc k) =
     (if Suc k < lo then None
      else case f (Suc k) of Some r \<Rightarrow> Some r | None \<Rightarrow> backtrack f lo k)"

fun match_seq :: "piece list \<Rightarrow> string \<Rightarrow> nat option" where
  "match_seq [] s = Some 0"
| "match_seq (Rep c lo hi # ps) s =
     backtrack (\<lambda>j. map_option (\<lambda>m. j + m) (match_seq ps (drop j s))) lo
       (span_of (in_class c) hi s)"

fun match_alt :: "piece list list \<Rightarrow> string \<Rightarrow> nat option" where
  "match_alt [] s = None"
| "match_alt (a # as) s =
     (case match_seq a s of Some k \<Rightarrow> Some k | None \<Rightarrow> match_alt as s)"

text \<open>
  \<open>findall\<close> scans from the left: a match at the current position is emitted and the scan
  resumes after it; where nothing matches, one character is skipped. An empty match is
  emitted and the scan moves one character on.
\<close>

function findall :: "piece list list \<Rightarrow> string \<Rightarrow> string list" where
  "findall re [] = (case match_alt re [] of None \<Rightarrow> [] | Some k \<Rightarrow> [[]])"
| "findall re (c # cs) =
     (case match_alt re (c # cs) of
        None \<Rightarrow> findall re cs
      | Some k \<Rightarrow> (if k = 0 then [] # findall re cs
                   else take k (c # cs) # findall re (drop k (c # cs))))"
  by pat_completeness auto
termination
  by (relation "measure (\<lambda>(re, s). length s)") auto

text \<open>Line 22: tags, IP addresses, SSNs, words and punctuation, with trailing spaces.\<close>

definition chunk_re :: "piece list list" where
  "chunk_re =
    [ [one (Chr CHR ''<''), plus_of (Is Word), star_of (NoneOf [Chr CHR ''>'']),
       one (Chr CHR ''>''), star_of (Is Space)],
      [one (Chr CHR ''<''), one (Chr CHR ''/''), plus_of (Is Word), one (Chr CHR ''>''),
       star_of (Is Space)],
      [Rep (Is Digit) 1 (Some 3), one (Chr CHR ''.''), Rep (Is Digit) 1 (Some 3),
       one (Chr CHR ''.''), Rep (Is Digit) 1 (Some 3), one (Chr CHR ''.''),
       Rep (Is Digit) 1 (Some 3), star_of (Is Space)],
      [Rep (Is Digit) 3 (Some 3), one (Chr CHR ''-''), Rep (Is Digit) 2 (Some 2),
       one (Chr CHR ''-''), Rep (Is Digit) 4 (Some 4), star_of (Is Space)],
      [plus_of (AnyOf [Word, Chr (CHR 0x27), Chr CHR ''-'']), star_of (Is Space)],
      [plus_of (NoneOf [Word, Chr (CHR 0x27), Chr CHR ''-'', Space]), star_of (Is Space)] ]"

section \<open>The stemmer and \<open>_normalise_text\<close>\<close>

definition rstrip :: "string \<Rightarrow> string" where
  "rstrip s = rev (dropWhile is_space (rev s))"

definition lower_char :: "char \<Rightarrow> char" where
  "lower_char c = (let k = (of_char c :: nat) in
     if 65 \<le> k \<and> k \<le> 90 then char_of (k + 32) else c)"

definition lower :: "string \<Rightarrow> string" where
  "lower s = map lower_char s"

text \<open>
  \<open>self.stem\<close> is an instance of \<open>NoStem\<close> (lines 26-30) or a stemmer object of the
  \<open>snowballstemmer\<close> package, which is not part of the repository: its \<open>stemWord\<close> is
  a parameter, a function on strings.

  A call \<open>obj.stemWord(x)\<close> passes two arguments, \<open>obj\<close> and \<open>x\<close>, to the \<open>def\<close> of
  \<open>stemWord\<close>; Python raises \<open>TypeError\<close> before the body runs when the \<open>def\<close> has
  another number of formal parameters. \<open>nparams\<close> is that number, \<open>body\<close> what the
  \<open>def\<close> returns for \<open>x\<close> once the arguments are bound.
\<close>

definition call_method :: "nat \<Rightarrow> (string \<Rightarrow> string) \<Rightarrow> string \<Rightarrow> exn + string" where
  "call_method nparams body x = (if nparams = 2 then Inr (body x) else Inl TypeError)"

datatype stemmer = NoStem | Snowball "string \<Rightarrow> string"

text \<open>
  Line 29 is \<open>def stemWord(s): return s\<close>: one formal parameter. The package's method
  is \<open>def stemWord(self, word)\<close>.
\<close>

fun stemWord :: "stemmer \<Rightarrow> string \<Rightarrow> exn + string" where
  "stemWord NoStem x = call_method 1 (\<lambda>s. s) x"
| "stemWord (Snowball f) x = call_method 2 f x"

record highlighter =
  stem :: stemmer

text \<open>Lines 35-42; \<open>snowballstemmer\<close> maps a language name to its \<open>stemWord\<close>.\<close>

definition Highlighter :: "(string \<Rightarrow> string \<Rightarrow> string) \<Rightarrow> string option \<Rightarrow> highlighter" where
  "Highlighter snowballstemmer language =
     (case language of
        None \<Rightarrow> \<lparr>stem = NoStem\<rparr>
      | Some l \<Rightarrow> if l \<noteq> [] then \<lparr>stem = Snowball (snowballstemmer l)\<rparr> else \<lparr>stem = NoStem\<rparr>)"

text \<open>Lines 190-192.\<close>

definition normalise_text :: "highlighter \<Rightarrow> string \<Rightarrow> exn + string" where
  "normalise_text self term = stemWord (stem self) (lower (rstrip term))"

text \<open>\<open>[self._normalise_text(w) for w in words]\<close>: the first exception ends the loop.\<close>

fun normalise_words :: "highlighter \<Rightarrow> string list \<Rightarrow> exn + string list" where
  "normalise_words self [] = Inr []"
| "normalise_words self (w # ws) =
     (case normalise_text self w of
        Inl e \<Rightarrow> Inl e
      | Inr t \<Rightarrow> (case normalise_words self ws of Inl e \<Rightarrow> Inl e | Inr ts \<Rightarrow> Inr (t # ts)))"

text \<open>
  \<open>[w for w in words if w[0] != '<']\<close>; \<open>w[0]\<close> raises \<open>IndexError\<close> on an empty
  string.
\<close>

fun drop_tags :: "string list \<Rightarrow> exn + string list" where
  "drop_tags [] = Inr []"
| "drop_tags (w # ws) =
     (case w of
        [] \<Rightarrow> Inl IndexError
      | c # _ \<Rightarrow> (case drop_tags ws of
                    Inl e \<Rightarrow> Inl e
                  | Inr r \<Rightarrow> Inr (if c \<noteq> CHR ''<'' then w # r else r)))"

section \<open>Matching a specification at a position\<close>

text \<open>
  A unit of a specification is a string, compared to the term with \<open>==\<close>, or a function
  object, called on the term; the function may raise.
\<close>

datatype munit = Literal string | Predicate "string \<Rightarrow> exn + bool"

definition enumerate_list :: "'a list \<Rightarrow> (nat \<times> 'a) list" where
  "enumerate_list q = zip [0..<length q] q"

text \<open>Lines 70-73 and 165-168; \<open>terms[n+offset]\<close> raises \<open>IndexError\<close> past the end.\<close>

fun unit_match :: "string list \<Rightarrow> nat \<Rightarrow> munit \<Rightarrow> exn + bool" where
  "unit_match terms i (Predicate f) = (if i < length terms then f (terms ! i) else Inl IndexError)"
| "unit_match terms i (Literal t) = (if i < length terms then Inr (terms ! i = t) else Inl IndexError)"

text \<open>
  Lines 69-75 and 163-170, the first loop of the \<open>try\<close> block. It returns the exception
  that ended it (\<open>None\<close> when it ran to its end) and the value the loop variable
  \<open>offset\<close> is left with (\<open>None\<close> while it was never assigned).
\<close>

fun try_units :: "string list \<Rightarrow> nat \<Rightarrow> (nat \<times> munit) list \<Rightarrow> nat option \<Rightarrow> exn option \<times> nat option" where
  "try_units terms n [] off = (None, off)"
| "try_units terms n ((offset, term) # rest) off =
     (case unit_match terms (n + offset) term of
        Inl e \<Rightarrow> (Some e, Some offset)
      | Inr match \<Rightarrow> if \<not> match then (Some IndexError, Some offset)
                     else try_units terms n rest (Some offset))"

section \<open>\<open>makeSample\<close>: the scoring pass\<close>

record scoring =
  sc_scores :: "int list"
  sc_highlight :: "bool list"
  sc_offset :: "nat option"

text \<open>Lines 78-80. A list index past the end raises \<open>IndexError\<close>.\<close>

fun add_scores :: "nat \<Rightarrow> (nat \<times> munit) list \<Rightarrow> scoring \<Rightarrow> exn option \<times> scoring" where
  "add_scores n [] st = (None, st)"
| "add_scores n ((offset, term) # rest) st =
     (if n + offset < length (sc_scores st) then
        (if n + offset < length (sc_highlight st) then
           add_scores n rest
             (st\<lparr>sc_scores := (sc_scores st)[n + offset := sc_scores st ! (n + offset) + WINDOW],
                 sc_highlight := (sc_highlight st)[n + offset := True],
                 sc_offset := Some offset\<rparr>)
         else (Some IndexError,
               st\<lparr>sc_scores := (sc_scores st)[n + offset := sc_scores st ! (n + offset) + WINDOW],
                   sc_offset := Some offset\<rparr>))
      else (Some IndexError, st\<lparr>sc_offset := Some offset\<rparr>))"

text \<open>Lines 83-86; \<open>ws\<close> is what is left of \<open>xrange(1, WINDOW)\<close>.\<close>

fun taper_left :: "nat \<Rightarrow> int list \<Rightarrow> int list \<Rightarrow> exn option \<times> int list" where
  "taper_left n [] scores = (None, scores)"
| "taper_left n (w # ws) scores =
     (let l = int n - w in
      if l < 0 then (None, scores)
      else if nat l < length scores
        then taper_left n ws (scores[nat l := scores ! nat l + (WINDOW - w)])
        else (Some IndexError, scores))"

text \<open>
  Lines 88-91. \<open>offset\<close> is the variable the two loops above left behind: unbound when
  neither ever ran, which raises \<open>UnboundLocalError\<close>.
\<close>

fun taper_right :: "nat \<Rightarrow> nat option \<Rightarrow> nat \<Rightarrow> int list \<Rightarrow> int list \<Rightarrow> exn option \<times> int list" where
  "taper_right n off lenwords [] scores = (None, scores)"
| "taper_right n off lenwords (w # ws) scores =
     (case off of
        None \<Rightarrow> (Some UnboundLocalError, scores)
      | Some offset \<Rightarrow>
          (let r = int n + int offset + w in
           if r = int lenwords then (None, scores)
           else if nat r < length scores
             then taper_right n off lenwords ws (scores[nat r := scores ! nat r + (WINDOW - w)])
             else (Some IndexError, scores)))"

text \<open>
  Lines 69-93, the body of the \<open>try\<close>: \<open>None\<close> when it reached the \<open>break\<close>, else the
  exception raised; with the lists and \<open>offset\<close> as they are at that moment.
\<close>

definition score_spec :: "string list \<Rightarrow> nat \<Rightarrow> munit list \<Rightarrow> scoring \<Rightarrow> exn option \<times> scoring" where
  "score_spec terms n q st =
     (case try_units terms n (enumerate_list q) (sc_offset st) of
        (Some e, off) \<Rightarrow> (Some e, st\<lparr>sc_offset := off\<rparr>)
      | (None, off) \<Rightarrow>
          (case add_scores n (enumerate_list q) (st\<lparr>sc_offset := off\<rparr>) of
             (Some e, st1) \<Rightarrow> (Some e, st1)
           | (None, st1) \<Rightarrow>
               (case taper_left n [1..WINDOW - 1] (sc_scores st1) of
                  (Some e, s2) \<Rightarrow> (Some e, st1\<lparr>sc_scores := s2\<rparr>)
                | (None, s2) \<Rightarrow>
                    (case taper_right n (sc_offset st1) (length terms) [1..WINDOW - 1] s2 of
                       (e, s3) \<Rightarrow> (e, st1\<lparr>sc_scores := s3\<rparr>)))))"

text \<open>
  Lines 67-96, \<open>for q in query\<close>: the \<open>break\<close> ends the loop, \<open>except IndexError: pass\<close>
  goes on with the next specification, any other exception leaves the method.
\<close>

fun score_query :: "string list \<Rightarrow> nat \<Rightarrow> munit list list \<Rightarrow> scoring \<Rightarrow> exn + scoring" where
  "score_query terms n [] st = Inr st"
| "score_query terms n (q # qs) st =
     (case score_spec terms n q st of
        (None, st') \<Rightarrow> Inr st'
      | (Some e, st') \<Rightarrow> if e = IndexError then score_query terms n qs st' else Inl e)"

text \<open>Lines 66-96, \<open>for n in xrange(lenwords)\<close>.\<close>

fun score_positions :: "string list \<Rightarrow> munit list list \<Rightarrow> nat list \<Rightarrow> scoring \<Rightarrow> exn + scoring" where
  "score_positions terms query [] st = Inr st"
| "score_positions terms query (n # ns) st =
     (case score_query terms n query st of
        Inl e \<Rightarrow> Inl e
      | Inr st' \<Rightarrow> score_positions terms query ns st')"

text \<open>Lines 62-96.\<close>

definition scoring_pass :: "string list \<Rightarrow> munit list list \<Rightarrow> exn + scoring" where
  "scoring_pass terms query =
     score_positions terms query [0..<length terms]
       \<lparr>sc_scores = replicate (length terms) 0,
        sc_highlight = replicate (length terms) False,
        sc_offset = None\<rparr>"

section \<open>\<open>makeSample\<close>: selection and the sample\<close>

text \<open>
  Lines 99-101: the dictionary from a score to the positions that have it, each list in
  the order the positions were appended.
\<close>

fun flatten_scores :: "int list \<Rightarrow> nat list \<Rightarrow> (int \<rightharpoonup> nat list) \<Rightarrow> (int \<rightharpoonup> nat list)" where
  "flatten_scores scores [] scoreboard = scoreboard"
| "flatten_scores scores (n # ns) scoreboard =
     flatten_scores scores ns
       (scoreboard(scores ! n \<mapsto> (case scoreboard (scores ! n) of None \<Rightarrow> [] | Some l \<Rightarrow> l) @ [n]))"

text \<open>\<open>max(scores)\<close> raises \<open>ValueError\<close> on an empty list.\<close>

definition max_score :: "int list \<Rightarrow> exn + int" where
  "max_score scores = (case scores of [] \<Rightarrow> Inl ValueError | x # xs \<Rightarrow> Inr (fold max xs x))"

text \<open>
  Lines 109-113, the positions of one score: the flag tells whether \<open>StopIteration\<close> was
  raised; \<open>charlen\<close> and \<open>selected\<close> are returned as they are then.
\<close>

fun select_positions :: "string list \<Rightarrow> int \<Rightarrow> nat list \<Rightarrow> int \<times> bool list \<Rightarrow> bool \<times> int \<times> bool list" where
  "select_positions words maxlen [] (charlen, selected) = (False, charlen, selected)"
| "select_positions words maxlen (n # ns) (charlen, selected) =
     (let charlen' = charlen + (int (length (words ! n)) + 1) in
      if charlen' \<ge> maxlen then (True, charlen', selected)
      else select_positions words maxlen ns (charlen', selected[n := True]))"

text \<open>Lines 106-116; \<open>ss\<close> is what is left of \<open>xrange(max(scores), -1, -1)\<close>.\<close>

fun select_scores :: "(int \<rightharpoonup> nat list) \<Rightarrow> string list \<Rightarrow> int \<Rightarrow> int list \<Rightarrow> int \<times> bool list \<Rightarrow> bool list" where
  "select_scores scoreboard words maxlen [] (charlen, selected) = selected"
| "select_scores scoreboard words maxlen (s # ss) (charlen, selected) =
     (case scoreboard s of
        None \<Rightarrow> select_scores scoreboard words maxlen ss (charlen, selected)
      | Some ns \<Rightarrow>
          (case select_positions words maxlen ns (charlen, selected) of
             (stop, charlen', selected') \<Rightarrow>
               if stop then selected'
               else select_scores scoreboard words maxlen ss (charlen', selected')))"

text \<open>Lines 98-116.\<close>

definition select_words :: "string list \<Rightarrow> int list \<Rightarrow> int \<Rightarrow> exn + bool list" where
  "select_words words scores maxlen =
     (let lenwords = length words;
          scoreboard = flatten_scores scores [0..<lenwords] Map.empty
      in case max_score scores of
           Inl e \<Rightarrow> Inl e
         | Inr m \<Rightarrow> Inr (select_scores scoreboard words maxlen (rev [0..m])
                           (0, replicate lenwords False)))"

text \<open>Lines 119-135: the list \<open>sample\<close>, \<open>in_phrase\<close> threaded through the loop.\<close>

fun create_sample :: "string list \<Rightarrow> bool list \<Rightarrow> bool list \<Rightarrow> string \<times> string \<Rightarrow> nat list \<Rightarrow> bool \<Rightarrow> string list" where
  "create_sample words selected highlight hl [] in_phrase = []"
| "create_sample words selected highlight hl (n # ns) in_phrase =
     (if selected ! n then
        (if highlight ! n then [fst hl, words ! n, snd hl] else [words ! n])
          @ create_sample words selected highlight hl ns True
      else if in_phrase then ''... '' # create_sample words selected highlight hl ns False
      else create_sample words selected highlight hl ns in_phrase)"

text \<open>Lines 44-137.\<close>

definition makeSample :: "highlighter \<Rightarrow> string \<Rightarrow> munit list list \<Rightarrow> int \<Rightarrow> string \<times> string \<Rightarrow> exn + string" where
  "makeSample self text query maxlen hl =
     (case drop_tags (findall chunk_re text) of
        Inl e \<Rightarrow> Inl e
      | Inr words \<Rightarrow>
     (case normalise_words self words of
        Inl e \<Rightarrow> Inl e
      | Inr terms \<Rightarrow>
     if length words = 0 then Inr text
     else
     (case scoring_pass terms query of
        Inl e \<Rightarrow> Inl e
      | Inr st \<Rightarrow>
     (case select_words words (sc_scores st) maxlen of
        Inl e \<Rightarrow> Inl e
      | Inr selected \<Rightarrow>
          Inr (concat (create_sample words selected (sc_highlight st) hl
                        [0..<length words] False))))))"

section \<open>\<open>highlight\<close>\<close>

text \<open>Lines 172-173.\<close>

fun set_highlight :: "nat \<Rightarrow> (nat \<times> munit) list \<Rightarrow> bool list \<Rightarrow> exn option \<times> bool list" where
  "set_highlight n [] highlight = (None, highlight)"
| "set_highlight n ((offset, term) # rest) highlight =
     (if n + offset < length highlight
      then set_highlight n rest (highlight[n + offset := True])
      else (Some IndexError, highlight))"

text \<open>Lines 163-173, the body of the \<open>try\<close>.\<close>

definition highlight_spec :: "string list \<Rightarrow> nat \<Rightarrow> munit list \<Rightarrow> bool list \<Rightarrow> exn option \<times> bool list" where
  "highlight_spec terms n q highlight =
     (case try_units terms n (enumerate_list q) None of
        (Some e, off) \<Rightarrow> (Some e, highlight)
      | (None, off) \<Rightarrow> set_highlight n (enumerate_list q) highlight)"

text \<open>
  Lines 161-176, \<open>for q in query\<close>: there is no \<open>break\<close>; after the \<open>try\<close> statement the
  loop goes on with the next specification, matched or not.
\<close>

fun highlight_query :: "string list \<Rightarrow> nat \<Rightarrow> munit list list \<Rightarrow> bool list \<Rightarrow> exn + bool list" where
  "highlight_query terms n [] highlight = Inr highlight"
| "highlight_query terms n (q # qs) highlight =
     (case highlight_spec terms n q highlight of
        (None, highlight') \<Rightarrow> highlight_query terms n qs highlight'
      | (Some e, highlight') \<Rightarrow>
          if e = IndexError then highlight_query terms n qs highlight' else Inl e)"

fun highlight_positions :: "string list \<Rightarrow> munit list list \<Rightarrow> nat list \<Rightarrow> bool list \<Rightarrow> exn + bool list" where
  "highlight_positions terms query [] highlight = Inr highlight"
| "highlight_positions terms query (n # ns) highlight =
     (case highlight_query terms n query highlight of
        Inl e \<Rightarrow> Inl e
      | Inr highlight' \<Rightarrow> highlight_positions terms query ns highlight')"

text \<open>Lines 178-187.\<close>

fun add_markers :: "string list \<Rightarrow> bool list \<Rightarrow> string \<times> string \<Rightarrow> nat list \<Rightarrow> string list" where
  "add_markers words highlight hl [] = []"
| "add_markers words highlight hl (n # ns) =
     (if highlight ! n then [fst hl, words ! n, snd hl] else [words ! n])
       @ add_markers words highlight hl ns"

text \<open>Lines 139-187.\<close>

definition highlight :: "highlighter \<Rightarrow> string \<Rightarrow> munit list list \<Rightarrow> string \<times> string \<Rightarrow> bool \<Rightarrow> exn + string" where
  "highlight self text query hl no_tags =
     (case (if no_tags then drop_tags (findall chunk_re text) else Inr (findall chunk_re text)) of
        Inl e \<Rightarrow> Inl e
      | Inr words \<Rightarrow>
     (case normalise_words self words of
        Inl e \<Rightarrow> Inl e
      | Inr terms \<Rightarrow>
     (case highlight_positions terms query [0..<length words] (replicate (length words) False) of
        Inl e \<Rightarrow> Inl e
      | Inr flags \<Rightarrow> Inr (concat (add_markers words flags hl [0..<length words])))))"

section \<open>Notions the properties are stated with\<close>

text \<open>
  A unit accepts a term: a literal equals it, a predicate returns true on it (section 4.4
  of the specification).
\<close>

fun unit_accepts :: "munit \<Rightarrow> string \<Rightarrow> bool" where
  "unit_accepts (Literal t) x = (x = t)"
| "unit_accepts (Predicate f) x = (f x = Inr True)"

text \<open>
  The specification \<open>q\<close> matches at position \<open>n\<close>: the first loop of the \<open>try\<close> block
  runs to its end.
\<close>

definition spec_matches :: "string list \<Rightarrow> nat \<Rightarrow> munit list \<Rightarrow> bool" where
  "spec_matches terms n q = (fst (try_units terms n (enumerate_list q) None) = None)"

text \<open>
  The lists of a scoring state have one entry per token and no score is negative.
\<close>

definition scoring_ok :: "nat \<Rightarrow> scoring \<Rightarrow> bool" where
  "scoring_ok lenwords st \<longleftrightarrow>
     length (sc_scores st) = lenwords \<and> length (sc_highlight st) = lenwords
     \<and> (\<forall>s\<in>set (sc_scores st). 0 \<le> s)"

text \<open>
  A predicate that raises the exception \<open>e\<close> on every term, and one that tells whether
  the term starts with a given string (\<open>term.startswith(p)\<close>).
\<close>

definition always_raises :: "exn \<Rightarrow> string \<Rightarrow> exn + bool" where
  "always_raises e t = Inl e"

definition startswith :: "string \<Rightarrow> string \<Rightarrow> exn + bool" where
  "startswith p t = Inr (take (length p) t = p)"

text \<open>
  The chunks of a text that do not start with \<open><\<close>: the list comprehension of lines 56
  and 153.
\<close>

definition kept_chunks :: "string \<Rightarrow> string list" where
  "kept_chunks input = filter (\<lambda>w. hd w \<noteq> CHR ''<'') (findall chunk_re input)"

text \<open>
  The positions in the order the selection loops visit them (lines 107-109): score by
  score from \<open>max(scores)\<close> down to 0, the positions of one score as the dictionary
  lists them.
\<close>

definition bucket :: "(int \<rightharpoonup> nat list) \<Rightarrow> int \<Rightarrow> nat list" where
  "bucket scoreboard s = (case scoreboard s of None \<Rightarrow> [] | Some ns \<Rightarrow> ns)"

definition visit_order :: "int list \<Rightarrow> nat list" where
  "visit_order scores =
     (case max_score scores of
        Inl e \<Rightarrow> []
      | Inr m \<Rightarrow> concat (map (bucket (flatten_scores scores [0..<length scores] Map.empty))
                         (rev [0..m])))"

text \<open>Position \<open>i\<close> comes before position \<open>j\<close>: higher score first, then lower index.\<close>

definition considered_before :: "int list \<Rightarrow> nat \<Rightarrow> nat \<Rightarrow> bool" where
  "considered_before scores i j \<longleftrightarrow>
     scores ! j < scores ! i \<or> (scores ! i = scores ! j \<and> i < j)"

text \<open>
  What the positions \<open>ns\<close> add to the character counter, \<open>len(words[n]) + 1\<close> each, and
  the sum over the selected positions.
\<close>

definition charcost :: "string list \<Rightarrow> nat list \<Rightarrow> int" where
  "charcost words ns = sum_list (map (\<lambda>n. int (length (words ! n)) + 1) ns)"

definition selected_chars :: "string list \<Rightarrow> bool list \<Rightarrow> int" where
  "selected_chars words selected =
     charcost words (filter (\<lambda>p. selected ! p) [0..<length words])"

text \<open>
  What the two methods do once the list \<open>words\<close> is built: lines 57-137 for a list that
  is not empty, lines 154-187.
\<close>

definition sample_of_chunks :: "highlighter \<Rightarrow> string list \<Rightarrow> munit list list \<Rightarrow> int \<Rightarrow> string \<times> string \<Rightarrow> exn + string" where
  "sample_of_chunks self words query maxlen hl =
     (case normalise_words self words of
        Inl e \<Rightarrow> Inl e
      | Inr terms \<Rightarrow>
     (case scoring_pass terms query of
        Inl e \<Rightarrow> Inl e
      | Inr st \<Rightarrow>
     (case select_words words (sc_scores st) maxlen of
        Inl e \<Rightarrow> Inl e
      | Inr selected \<Rightarrow>
          Inr (concat (create_sample words selected (sc_highlight st) hl
                        [0..<length words] False)))))"

definition highlight_of_chunks :: "highlighter \<Rightarrow> string list \<Rightarrow> munit list list \<Rightarrow> string \<times> string \<Rightarrow> exn + string" where
  "highlight_of_chunks self words query hl =
     (case normalise_words self words of
        Inl e \<Rightarrow> Inl e
      | Inr terms \<Rightarrow>
     (case highlight_positions terms query [0..<length words] (replicate (length words) False) of
        Inl e \<Rightarrow> Inl e
      | Inr flags \<Rightarrow> Inr (concat (add_markers words flags hl [0..<length words]))))"

section \<open>Properties of the matcher\<close>

lemma enumerate_Cons:
  "zip [k..<k + length (u # us)] (u # us) = (k, u) # zip [Suc k..<Suc k + length us] us"
proof -
  have "[k..<Suc (k + length us)] = k # [Suc k..<Suc (k + length us)]"
    by (rule upt_conv_Cons) simp
  then show ?thesis by (simp del: upt_Suc)
qed

lemma try_units_off_irrelevant:
  "fst (try_units terms n us off) = fst (try_units terms n us off')"
  by (induction us arbitrary: off off') (auto split: sum.splits)

lemma unit_match_accepts:
  "unit_match terms i u = Inr True \<longleftrightarrow> i < length terms \<and> unit_accepts u (terms ! i)"
  by (cases u) auto

lemma try_units_zip_iff:
  "fst (try_units terms n (zip [k..<k + length q] q) off) = None \<longleftrightarrow>
     (\<forall>j<length q. n + k + j < length terms \<and> unit_accepts (q ! j) (terms ! (n + k + j)))"
proof (induction q arbitrary: k off)
  case Nil
  show ?case by simp
next
  case (Cons u us)
  note z = enumerate_Cons[of k u us]
  show ?case
  proof (cases "unit_match terms (n + k) u")
    case (Inl e)
    then have "\<not> (n + k < length terms \<and> unit_accepts u (terms ! (n + k)))"
      using unit_match_accepts[of terms "n + k" u] by simp
    then show ?thesis using Inl unfolding z by (auto simp: All_less_Suc2)
  next
    case (Inr b)
    show ?thesis
    proof (cases b)
      case True
      then have a: "n + k < length terms \<and> unit_accepts u (terms ! (n + k))"
        using Inr unit_match_accepts[of terms "n + k" u] by simp
      show ?thesis unfolding z using Inr True a Cons.IH[of "Suc k" "Some k"]
        by (simp add: All_less_Suc2)
    next
      case False
      then have "\<not> (n + k < length terms \<and> unit_accepts u (terms ! (n + k)))"
        using Inr unit_match_accepts[of terms "n + k" u] by simp
      then show ?thesis using Inr False unfolding z by (auto simp: All_less_Suc2)
    qed
  qed
qed

lemma spec_matches_iff:
  "spec_matches terms n q \<longleftrightarrow>
     (\<forall>j<length q. n + j < length terms \<and> unit_accepts (q ! j) (terms ! (n + j)))"
  using try_units_zip_iff[of terms n 0 q None] by (simp add: spec_matches_def enumerate_list_def)

lemma spec_matches_try_units:
  "spec_matches terms n q \<longleftrightarrow> fst (try_units terms n (enumerate_list q) off) = None"
  unfolding spec_matches_def using try_units_off_irrelevant[of terms n "enumerate_list q" None off]
  by simp

section \<open>Invariants of the scoring pass\<close>

lemma nonneg_update:
  "(\<forall>s\<in>set xs. (0::int) \<le> s) \<Longrightarrow> 0 \<le> v \<Longrightarrow> \<forall>s\<in>set (xs[i := v]). 0 \<le> s"
  using set_update_subset_insert[of xs i v] by auto

lemma add_scores_ok:
  "scoring_ok m st \<Longrightarrow> scoring_ok m (snd (add_scores n us st))"
proof (induction us arbitrary: st)
  case Nil
  then show ?case by simp
next
  case (Cons a us)
  obtain offset u where a: "a = (offset, u)" by (cases a)
  show ?case
  proof (cases "n + offset < m")
    case True
    let ?st = "st\<lparr>sc_scores := (sc_scores st)[n + offset := sc_scores st ! (n + offset) + WINDOW],
                 sc_highlight := (sc_highlight st)[n + offset := True],
                 sc_offset := Some offset\<rparr>"
    have "0 \<le> sc_scores st ! (n + offset)" using Cons.prems True by (simp add: scoring_ok_def)
    then have "\<forall>s\<in>set ((sc_scores st)[n + offset := sc_scores st ! (n + offset) + WINDOW]). 0 \<le> s"
      using Cons.prems by (intro nonneg_update) (auto simp: scoring_ok_def WINDOW_def)
    then have "scoring_ok m ?st"
      using Cons.prems by (simp add: scoring_ok_def)
    from Cons.IH[OF this] show ?thesis using Cons.prems True a by (simp add: scoring_ok_def)
  next
    case False
    then show ?thesis using Cons.prems a by (simp add: scoring_ok_def)
  qed
qed

lemma add_scores_done:
  "n + k + length q \<le> m \<Longrightarrow> scoring_ok m st \<Longrightarrow>
   fst (add_scores n (zip [k..<k + length q] q) st) = None
   \<and> sc_offset (snd (add_scores n (zip [k..<k + length q] q) st))
       = (if q = [] then sc_offset st else Some (k + length q - 1))"
proof (induction q arbitrary: k st)
  case Nil
  then show ?case by simp
next
  case (Cons u us)
  let ?st = "st\<lparr>sc_scores := (sc_scores st)[n + k := sc_scores st ! (n + k) + WINDOW],
               sc_highlight := (sc_highlight st)[n + k := True],
               sc_offset := Some k\<rparr>"
  have lt: "n + k < m" using Cons.prems by simp
  have "0 \<le> sc_scores st ! (n + k)" using Cons.prems lt by (simp add: scoring_ok_def)
  then have "\<forall>s\<in>set ((sc_scores st)[n + k := sc_scores st ! (n + k) + WINDOW]). 0 \<le> s"
    using Cons.prems by (intro nonneg_update) (auto simp: scoring_ok_def WINDOW_def)
  then have ok: "scoring_ok m ?st"
    using Cons.prems by (simp add: scoring_ok_def)
  have le: "n + Suc k + length us \<le> m" using Cons.prems by simp
  have step: "add_scores n (zip [k..<k + length (u # us)] (u # us)) st
      = add_scores n (zip [Suc k..<Suc k + length us] us) ?st"
    unfolding enumerate_Cons using lt Cons.prems by (simp add: scoring_ok_def)
  show ?case unfolding step using Cons.IH[OF le ok] by (cases us) auto
qed

lemma taper_left_ok:
  "length scores = m \<Longrightarrow> \<forall>s\<in>set scores. 0 \<le> s \<Longrightarrow> \<forall>w\<in>set ws. w \<le> WINDOW \<Longrightarrow>
   length (snd (taper_left n ws scores)) = m \<and> (\<forall>s\<in>set (snd (taper_left n ws scores)). 0 \<le> s)"
proof (induction ws arbitrary: scores)
  case Nil
  then show ?case by simp
next
  case (Cons w ws)
  show ?case
  proof (cases "int n - w < 0 \<or> \<not> nat (int n - w) < length scores")
    case True
    then show ?thesis using Cons.prems by (auto simp: Let_def)
  next
    case False
    let ?sc = "scores[nat (int n - w) := scores ! nat (int n - w) + (WINDOW - w)]"
    have "0 \<le> scores ! nat (int n - w)" using False Cons.prems by simp
    then have "\<forall>s\<in>set ?sc. 0 \<le> s" using Cons.prems by (intro nonneg_update) auto
    moreover have "length ?sc = m" using Cons.prems by simp
    ultimately have "length (snd (taper_left n ws ?sc)) = m \<and> (\<forall>s\<in>set (snd (taper_left n ws ?sc)). 0 \<le> s)"
      using Cons.IH[of ?sc] Cons.prems by simp
    then show ?thesis using False by (simp add: Let_def)
  qed
qed

lemma taper_left_done:
  "n < length scores \<Longrightarrow> \<forall>w\<in>set ws. 0 \<le> w \<Longrightarrow> fst (taper_left n ws scores) = None"
proof (induction ws arbitrary: scores)
  case Nil
  then show ?case by simp
next
  case (Cons w ws)
  have "0 \<le> w" using Cons.prems by simp
  then have "int n - w < 0 \<or> nat (int n - w) < length scores" using Cons.prems(1) by linarith
  then show ?case using Cons by (auto simp: Let_def)
qed

lemma taper_right_ok:
  "length scores = m \<Longrightarrow> \<forall>s\<in>set scores. 0 \<le> s \<Longrightarrow> \<forall>w\<in>set ws. w \<le> WINDOW \<Longrightarrow>
   length (snd (taper_right n off lenwords ws scores)) = m
   \<and> (\<forall>s\<in>set (snd (taper_right n off lenwords ws scores)). 0 \<le> s)"
proof (induction ws arbitrary: scores)
  case Nil
  then show ?case by simp
next
  case (Cons w ws)
  show ?case
  proof (cases off)
    case None
    then show ?thesis using Cons.prems by simp
  next
    case (Some offset)
    let ?r = "int n + int offset + w"
    show ?thesis
    proof (cases "?r = int lenwords \<or> \<not> nat ?r < length scores")
      case True
      then show ?thesis using Cons.prems Some by (auto simp: Let_def)
    next
      case False
      let ?sc = "scores[nat ?r := scores ! nat ?r + (WINDOW - w)]"
      have "0 \<le> scores ! nat ?r" using False Cons.prems by simp
      then have "\<forall>s\<in>set ?sc. 0 \<le> s" using Cons.prems by (intro nonneg_update) auto
      moreover have "length ?sc = m" using Cons.prems by simp
      ultimately have "length (snd (taper_right n off lenwords ws ?sc)) = m
          \<and> (\<forall>s\<in>set (snd (taper_right n off lenwords ws ?sc)). 0 \<le> s)"
        using Cons.IH[of ?sc] Cons.prems by simp
      then show ?thesis using False Some by (simp add: Let_def)
    qed
  qed
qed

lemma taper_right_done:
  "int n + int offset + a \<le> int (length scores) \<Longrightarrow> 0 \<le> a \<Longrightarrow>
   fst (taper_right n (Some offset) (length scores) [a..b] scores) = None"
proof (induction a b arbitrary: scores rule: upto.induct)
  case (1 a b)
  show ?case
  proof (cases "a \<le> b")
    case False
    then show ?thesis by simp
  next
    case True
    then have u: "[a..b] = a # [a + 1..b]" by (simp add: upto_rec1)
    let ?r = "int n + int offset + a"
    show ?thesis
    proof (cases "?r = int (length scores)")
      case True
      then show ?thesis unfolding u by simp
    next
      case False
      then have lt: "nat ?r < length scores" using "1.prems" by linarith
      let ?sc = "scores[nat ?r := scores ! nat ?r + (WINDOW - a)]"
      have "fst (taper_right n (Some offset) (length ?sc) [a + 1..b] ?sc) = None"
        using "1.prems" False True by (intro "1.IH") auto
      then show ?thesis unfolding u using False lt by (simp add: Let_def)
    qed
  qed
qed

lemma score_spec_ok:
  assumes "scoring_ok m st"
  shows "scoring_ok m (snd (score_spec terms n q st))"
proof (cases "try_units terms n (enumerate_list q) (sc_offset st)")
  case (Pair r off)
  show ?thesis
  proof (cases r)
    case (Some e)
    then show ?thesis using Pair assms by (simp add: score_spec_def scoring_ok_def)
  next
    case None
    let ?st0 = "st\<lparr>sc_offset := off\<rparr>"
    have ok0: "scoring_ok m ?st0" using assms by (simp add: scoring_ok_def)
    obtain r1 st1 where a: "add_scores n (enumerate_list q) ?st0 = (r1, st1)"
      by (cases "add_scores n (enumerate_list q) ?st0")
    have ok1: "scoring_ok m st1" using add_scores_ok[OF ok0, of n "enumerate_list q"] a by simp
    show ?thesis
    proof (cases r1)
      case (Some e)
      then show ?thesis using Pair None a ok1 by (simp add: score_spec_def)
    next
      case r1: None
      obtain r2 s2 where l: "taper_left n [1..WINDOW - 1] (sc_scores st1) = (r2, s2)"
        by (cases "taper_left n [1..WINDOW - 1] (sc_scores st1)")
      have ws: "\<forall>w\<in>set [1..WINDOW - 1]. w \<le> WINDOW" by simp
      have ok2: "length s2 = m \<and> (\<forall>s\<in>set s2. 0 \<le> s)"
        using taper_left_ok[of "sc_scores st1" m "[1..WINDOW - 1]" n] ok1 ws l
        by (simp add: scoring_ok_def)
      show ?thesis
      proof (cases r2)
        case (Some e)
        then show ?thesis using Pair None a r1 l ok1 ok2
          by (simp add: score_spec_def scoring_ok_def)
      next
        case r2: None
        obtain r3 s3 where r: "taper_right n (sc_offset st1) (length terms) [1..WINDOW - 1] s2 = (r3, s3)"
          by (cases "taper_right n (sc_offset st1) (length terms) [1..WINDOW - 1] s2")
        have "length s3 = m \<and> (\<forall>s\<in>set s3. 0 \<le> s)"
          using taper_right_ok[of s2 m "[1..WINDOW - 1]" n "sc_offset st1" "length terms"] ok2 ws r
          by simp
        then show ?thesis using Pair None a r1 l r2 r ok1
          by (simp add: score_spec_def scoring_ok_def)
      qed
    qed
  qed
qed

lemma score_spec_no_match:
  assumes "fst (try_units terms n (enumerate_list q) (sc_offset st)) = Some e"
  shows "score_spec terms n q st
           = (Some e, st\<lparr>sc_offset := snd (try_units terms n (enumerate_list q) (sc_offset st))\<rparr>)"
  using assms by (cases "try_units terms n (enumerate_list q) (sc_offset st)") (simp add: score_spec_def)

lemma score_spec_break:
  assumes q: "q \<noteq> []" and m: "spec_matches terms n q" and ok: "scoring_ok (length terms) st"
  shows "fst (score_spec terms n q st) = None"
proof -
  obtain off where t: "try_units terms n (enumerate_list q) (sc_offset st) = (None, off)"
    using m spec_matches_try_units[of terms n q "sc_offset st"]
    by (cases "try_units terms n (enumerate_list q) (sc_offset st)") simp
  have "n + (length q - 1) < length terms"
    using m q spec_matches_iff[of terms n q] by (cases q) auto
  then have le: "n + 0 + length q \<le> length terms" using q by (cases q) auto
  let ?st0 = "st\<lparr>sc_offset := off\<rparr>"
  have ok0: "scoring_ok (length terms) ?st0" using ok by (simp add: scoring_ok_def)
  obtain r1 st1 where a: "add_scores n (enumerate_list q) ?st0 = (r1, st1)"
    by (cases "add_scores n (enumerate_list q) ?st0")
  have d: "r1 = None \<and> sc_offset st1 = Some (length q - 1)"
    using add_scores_done[OF le ok0] a q by (simp add: enumerate_list_def)
  have ok1: "scoring_ok (length terms) st1"
    using add_scores_ok[OF ok0, of n "enumerate_list q"] a by simp
  have n: "n < length (sc_scores st1)" using le q ok1 by (cases q) (auto simp: scoring_ok_def)
  obtain r2 s2 where l: "taper_left n [1..WINDOW - 1] (sc_scores st1) = (r2, s2)"
    by (cases "taper_left n [1..WINDOW - 1] (sc_scores st1)")
  have r2: "r2 = None" using taper_left_done[OF n, of "[1..WINDOW - 1]"] l by simp
  have ws: "\<forall>w\<in>set [1..WINDOW - 1]. w \<le> WINDOW" by simp
  have len2: "length s2 = length terms"
    using taper_left_ok[of "sc_scores st1" "length terms" "[1..WINDOW - 1]" n] ok1 ws l
    by (simp add: scoring_ok_def)
  have "int n + int (length q - 1) + 1 \<le> int (length s2)" using le q len2 by (cases q) auto
  then have "fst (taper_right n (Some (length q - 1)) (length s2) [1..WINDOW - 1] s2) = None"
    by (rule taper_right_done) simp
  then show ?thesis using t a d l r2 len2
    by (auto simp: score_spec_def split: prod.splits)
qed

lemma score_query_ok:
  "scoring_ok m st \<Longrightarrow> score_query terms n qs st = Inr st' \<Longrightarrow> scoring_ok m st'"
proof (induction qs arbitrary: st)
  case Nil
  then show ?case by simp
next
  case (Cons q qs)
  obtain r st1 where s: "score_spec terms n q st = (r, st1)" by (cases "score_spec terms n q st")
  have ok1: "scoring_ok m st1" using score_spec_ok[OF Cons.prems(1), of terms n q] s by simp
  show ?case
  proof (cases r)
    case None
    then show ?thesis using Cons.prems s ok1 by simp
  next
    case (Some e)
    then show ?thesis using Cons.prems s Cons.IH[OF ok1] by (simp split: if_splits)
  qed
qed

lemma score_positions_ok:
  "scoring_ok m st \<Longrightarrow> score_positions terms query ns st = Inr st' \<Longrightarrow> scoring_ok m st'"
proof (induction ns arbitrary: st)
  case Nil
  then show ?case by simp
next
  case (Cons n ns)
  then show ?case by (auto split: sum.splits dest: score_query_ok)
qed

lemma scoring_pass_ok:
  "scoring_pass terms query = Inr st \<Longrightarrow> scoring_ok (length terms) st"
  unfolding scoring_pass_def
  by (erule score_positions_ok[rotated]) (simp add: scoring_ok_def)

lemma score_query_never_IndexError: "score_query terms n qs st \<noteq> Inl IndexError"
proof (induction qs arbitrary: st)
  case Nil
  show ?case by simp
next
  case (Cons q qs)
  then show ?case by (auto split: prod.splits option.splits)
qed

lemma score_positions_never_IndexError: "score_positions terms query ns st \<noteq> Inl IndexError"
proof (induction ns arbitrary: st)
  case Nil
  show ?case by simp
next
  case (Cons n ns)
  then show ?case using score_query_never_IndexError by (auto split: sum.splits)
qed

section \<open>First match in makeSample, every match in highlight\<close>

lemma set_highlight_done:
  "n + k + length q \<le> length flags \<Longrightarrow>
   fst (set_highlight n (zip [k..<k + length q] q) flags) = None
   \<and> length (snd (set_highlight n (zip [k..<k + length q] q) flags)) = length flags
   \<and> (\<forall>i<length flags. snd (set_highlight n (zip [k..<k + length q] q) flags) ! i
          \<longleftrightarrow> flags ! i \<or> (n + k \<le> i \<and> i < n + k + length q))"
proof (induction q arbitrary: k flags)
  case Nil
  then show ?case by auto
next
  case (Cons u us)
  let ?f = "flags[n + k := True]"
  have lt: "n + k < length flags" using Cons.prems by simp
  have le: "n + Suc k + length us \<le> length ?f" using Cons.prems by simp
  have step: "set_highlight n (zip [k..<k + length (u # us)] (u # us)) flags
      = set_highlight n (zip [Suc k..<Suc k + length us] us) ?f"
    unfolding enumerate_Cons using lt by simp
  show ?case unfolding step using Cons.IH[OF le] lt
    by (auto simp: nth_list_update)
qed

lemma spec_matches_in_range:
  assumes "spec_matches terms n q" "q \<noteq> []"
  shows "n + length q \<le> length terms"
proof -
  have "length q - 1 < length q" using assms(2) by (cases q) auto
  then have "n + (length q - 1) < length terms"
    using assms(1) spec_matches_iff[of terms n q] by blast
  then show ?thesis using assms(2) by (cases q) auto
qed

lemma highlight_spec_match:
  assumes m: "spec_matches terms n q" and len: "length flags = length terms"
  shows "fst (highlight_spec terms n q flags) = None
   \<and> length (snd (highlight_spec terms n q flags)) = length flags
   \<and> (\<forall>i<length flags. snd (highlight_spec terms n q flags) ! i
          \<longleftrightarrow> flags ! i \<or> (n \<le> i \<and> i < n + length q))"
proof -
  have t: "fst (try_units terms n (enumerate_list q) None) = None"
    using m by (simp add: spec_matches_def)
  then have h: "highlight_spec terms n q flags = set_highlight n (enumerate_list q) flags"
    by (cases "try_units terms n (enumerate_list q) None") (simp add: highlight_spec_def)
  show ?thesis
  proof (cases "q = []")
    case True
    then show ?thesis unfolding h by (auto simp: enumerate_list_def)
  next
    case False
    then have "n + 0 + length q \<le> length flags"
      using spec_matches_in_range[OF m] len by simp
    from set_highlight_done[OF this] show ?thesis unfolding h by (simp add: enumerate_list_def)
  qed
qed

lemma highlight_spec_no_match:
  assumes "\<not> spec_matches terms n q"
  shows "\<exists>e. highlight_spec terms n q flags = (Some e, flags)
            \<and> fst (try_units terms n (enumerate_list q) None) = Some e"
  using assms
  by (cases "try_units terms n (enumerate_list q) None")
     (auto simp: highlight_spec_def spec_matches_def)

lemma highlight_query_flags:
  "highlight_query terms n qs flags = Inr flags' \<Longrightarrow> length flags = length terms \<Longrightarrow>
   length flags' = length terms
   \<and> (\<forall>i<length terms. flags' ! i \<longleftrightarrow>
         flags ! i \<or> (\<exists>q\<in>set qs. spec_matches terms n q \<and> n \<le> i \<and> i < n + length q))"
proof (induction qs arbitrary: flags)
  case Nil
  then show ?case by simp
next
  case (Cons q qs)
  show ?case
  proof (cases "spec_matches terms n q")
    case True
    note h = highlight_spec_match[OF True Cons.prems(2)]
    obtain f1 where f1: "highlight_spec terms n q flags = (None, f1)"
      using h by (cases "highlight_spec terms n q flags") simp
    have l1: "length f1 = length terms" using h f1 Cons.prems(2) by simp
    have "highlight_query terms n qs f1 = Inr flags'" using Cons.prems(1) f1 by simp
    from Cons.IH[OF this l1] show ?thesis using h f1 True Cons.prems(2) by auto
  next
    case False
    obtain e where e: "highlight_spec terms n q flags = (Some e, flags)"
      using highlight_spec_no_match[OF False] by blast
    then have "highlight_query terms n qs flags = Inr flags'"
      using Cons.prems(1) by (simp split: if_splits)
    from Cons.IH[OF this Cons.prems(2)] show ?thesis using False by auto
  qed
qed

lemma score_query_first_match:
  assumes "q \<noteq> []" "spec_matches terms n q" "scoring_ok (length terms) st"
  shows "score_query terms n (q # qs) st = Inr (snd (score_spec terms n q st))"
  using score_spec_break[OF assms] by (cases "score_spec terms n q st") simp

lemma score_query_skip:
  assumes "fst (try_units terms n (enumerate_list q) None) = Some IndexError"
  shows "score_query terms n (q # qs) st
     = score_query terms n qs
         (st\<lparr>sc_offset := snd (try_units terms n (enumerate_list q) (sc_offset st))\<rparr>)"
proof -
  have "fst (try_units terms n (enumerate_list q) (sc_offset st)) = Some IndexError"
    using assms try_units_off_irrelevant[of terms n "enumerate_list q" None "sc_offset st"] by simp
  from score_spec_no_match[OF this] show ?thesis by simp
qed

lemma score_query_skip_all:
  "\<forall>q\<in>set before. fst (try_units terms n (enumerate_list q) None) = Some IndexError \<Longrightarrow>
   \<exists>off. score_query terms n (before @ rest) st = score_query terms n rest (st\<lparr>sc_offset := off\<rparr>)"
proof (induction before arbitrary: st)
  case Nil
  have "st = st\<lparr>sc_offset := sc_offset st\<rparr>" by simp
  then show ?case by (metis append_Nil)
next
  case (Cons q before)
  let ?st = "st\<lparr>sc_offset := snd (try_units terms n (enumerate_list q) (sc_offset st))\<rparr>"
  have s: "score_query terms n ((q # before) @ rest) st = score_query terms n (before @ rest) ?st"
    using score_query_skip[of terms n q "before @ rest" st] Cons.prems by simp
  obtain off where "score_query terms n (before @ rest) ?st
      = score_query terms n rest (?st\<lparr>sc_offset := off\<rparr>)"
    using Cons.IH[of ?st] Cons.prems by auto
  then show ?case using s by auto
qed

section \<open>Exceptions raised while matching\<close>

lemma try_units_error_cases:
  "fst (try_units terms n (zip [k..<k + length q] q) off) = Some e \<Longrightarrow>
   e = IndexError \<or>
   (\<exists>j f. j < length q \<and> n + k + j < length terms \<and> q ! j = Predicate f
          \<and> f (terms ! (n + k + j)) = Inl e)"
proof (induction q arbitrary: k off)
  case Nil
  then show ?case by simp
next
  case (Cons u us)
  note z = enumerate_Cons[of k u us]
  show ?case
  proof (cases "unit_match terms (n + k) u")
    case (Inl e')
    then have e: "e' = e" using Cons.prems unfolding z by simp
    show ?thesis
    proof (cases u)
      case (Literal t)
      then show ?thesis using Inl e by (auto split: if_splits)
    next
      case (Predicate f)
      then have "e = IndexError \<or> (n + k < length terms \<and> f (terms ! (n + k)) = Inl e)"
        using Inl e by (auto split: if_splits)
      then show ?thesis using Predicate by (auto intro: exI[of _ 0])
    qed
  next
    case (Inr b)
    show ?thesis
    proof (cases b)
      case False
      then show ?thesis using Cons.prems Inr unfolding z by simp
    next
      case True
      then have "fst (try_units terms n (zip [Suc k..<Suc k + length us] us) (Some k)) = Some e"
        using Cons.prems Inr unfolding z by simp
      from Cons.IH[OF this] show ?thesis
      proof
        assume "e = IndexError" then show ?thesis by simp
      next
        assume "\<exists>j f. j < length us \<and> n + Suc k + j < length terms \<and> us ! j = Predicate f
          \<and> f (terms ! (n + Suc k + j)) = Inl e"
        then obtain j f where "j < length us" "n + Suc k + j < length terms" "us ! j = Predicate f"
          "f (terms ! (n + Suc k + j)) = Inl e" by blast
        then have "Suc j < length (u # us) \<and> n + k + Suc j < length terms
            \<and> (u # us) ! Suc j = Predicate f \<and> f (terms ! (n + k + Suc j)) = Inl e" by simp
        then show ?thesis by blast
      qed
    qed
  qed
qed

lemma try_units_raises:
  "j < length q \<Longrightarrow> q ! j = Predicate f \<Longrightarrow> n + k + j < length terms \<Longrightarrow>
   f (terms ! (n + k + j)) = Inl e \<Longrightarrow>
   \<forall>i<j. unit_match terms (n + k + i) (q ! i) = Inr True \<Longrightarrow>
   try_units terms n (zip [k..<k + length q] q) off = (Some e, Some (k + j))"
proof (induction q arbitrary: k j off)
  case Nil
  then show ?case by simp
next
  case (Cons u us)
  note z = enumerate_Cons[of k u us]
  show ?case
  proof (cases j)
    case 0
    then show ?thesis using Cons.prems unfolding z by simp
  next
    case (Suc j')
    have u: "unit_match terms (n + k) u = Inr True" using Cons.prems(5) Suc by force
    have "try_units terms n (zip [Suc k..<Suc k + length us] us) (Some k) = (Some e, Some (Suc k + j'))"
    proof (rule Cons.IH)
      show "j' < length us" using Cons.prems Suc by simp
      show "us ! j' = Predicate f" using Cons.prems Suc by simp
      show "n + Suc k + j' < length terms" using Cons.prems Suc by simp
      show "f (terms ! (n + Suc k + j')) = Inl e" using Cons.prems Suc by simp
      show "\<forall>i<j'. unit_match terms (n + Suc k + i) (us ! i) = Inr True"
      proof (intro allI impI)
        fix i assume "i < j'"
        then have "Suc i < j" using Suc by simp
        from Cons.prems(5)[rule_format, OF this] show "unit_match terms (n + Suc k + i) (us ! i) = Inr True"
          by simp
      qed
    qed
    then show ?thesis unfolding z using u Suc by simp
  qed
qed

lemma highlight_query_skip:
  assumes "fst (try_units terms n (enumerate_list q) None) = Some IndexError"
  shows "highlight_query terms n (q # qs) flags = highlight_query terms n qs flags"
  using assms by (cases "try_units terms n (enumerate_list q) None") (simp add: highlight_spec_def)

lemma highlight_query_skip_all:
  "\<forall>q\<in>set before. spec_matches terms n q \<or> fst (try_units terms n (enumerate_list q) None) = Some IndexError \<Longrightarrow>
   length flags = length terms \<Longrightarrow>
   \<exists>flags'. length flags' = length terms
      \<and> highlight_query terms n (before @ rest) flags = highlight_query terms n rest flags'"
proof (induction before arbitrary: flags)
  case Nil
  then show ?case by auto
next
  case (Cons q before)
  show ?case
  proof (cases "spec_matches terms n q")
    case True
    note h = highlight_spec_match[OF True Cons.prems(2)]
    obtain f1 where f1: "highlight_spec terms n q flags = (None, f1)"
      using h by (cases "highlight_spec terms n q flags") simp
    have l1: "length f1 = length terms" using h f1 Cons.prems(2) by simp
    have "\<exists>flags'. length flags' = length terms
      \<and> highlight_query terms n (before @ rest) f1 = highlight_query terms n rest flags'"
      using Cons.IH[OF _ l1] Cons.prems(1) by simp
    then show ?thesis using f1 by simp
  next
    case False
    then have "fst (try_units terms n (enumerate_list q) None) = Some IndexError"
      using Cons.prems(1) by simp
    from highlight_query_skip[OF this]
    have "highlight_query terms n ((q # before) @ rest) flags
        = highlight_query terms n (before @ rest) flags" by simp
    then show ?thesis using Cons.IH[OF _ Cons.prems(2)] Cons.prems(1) by simp
  qed
qed

lemma score_positions_append:
  "score_positions terms query ns1 st = Inr st1 \<Longrightarrow>
   score_positions terms query (ns1 @ ns2) st = score_positions terms query ns2 st1"
  by (induction ns1 arbitrary: st) (auto split: sum.splits)

lemma highlight_positions_append:
  "highlight_positions terms query ns1 flags = Inr flags1 \<Longrightarrow>
   highlight_positions terms query (ns1 @ ns2) flags = highlight_positions terms query ns2 flags1"
  by (induction ns1 arbitrary: flags) (auto split: sum.splits)

lemma score_query_raise:
  assumes "fst (try_units terms n (enumerate_list q) off) = Some e" "e \<noteq> IndexError"
  shows "score_query terms n (q # qs) st = Inl e"
proof -
  have "fst (try_units terms n (enumerate_list q) (sc_offset st)) = Some e"
    using assms(1) try_units_off_irrelevant[of terms n "enumerate_list q" off "sc_offset st"] by simp
  from score_spec_no_match[OF this] show ?thesis using assms(2) by simp
qed

lemma highlight_query_raise:
  assumes "fst (try_units terms n (enumerate_list q) off) = Some e" "e \<noteq> IndexError"
  shows "highlight_query terms n (q # qs) flags = Inl e"
proof -
  have "fst (try_units terms n (enumerate_list q) None) = Some e"
    using assms(1) try_units_off_irrelevant[of terms n "enumerate_list q" off None] by simp
  then show ?thesis using assms(2)
    by (cases "try_units terms n (enumerate_list q) None") (simp add: highlight_spec_def)
qed

lemma normalise_words_length:
  "normalise_words self ws = Inr ts \<Longrightarrow> length ts = length ws"
  by (induction ws arbitrary: ts) (auto split: sum.splits)

lemma highlight_positions_length:
  "highlight_positions terms query ns flags = Inr flags' \<Longrightarrow> length flags = length terms \<Longrightarrow>
   length flags' = length terms"
proof (induction ns arbitrary: flags)
  case Nil
  then show ?case by simp
next
  case (Cons n ns)
  then show ?case using highlight_query_flags by (auto split: sum.splits)
qed

lemma upt_split_at: "n < m \<Longrightarrow> [0..<m] = [0..<n] @ n # [Suc n..<m]"
proof -
  have "[0..<m] = [0..<n] @ [n..<m]" if "n < m"
    using that upt_add_eq_append[of 0 n "m - n"] by simp
  moreover have "[n..<m] = n # [Suc n..<m]" if "n < m" using that by (rule upt_conv_Cons)
  ultimately show "n < m \<Longrightarrow> [0..<m] = [0..<n] @ n # [Suc n..<m]" by simp
qed

section \<open>Literal-only queries\<close>

lemma literal_try_units:
  assumes "\<forall>u\<in>set q. \<exists>t. u = Literal t"
  shows "fst (try_units terms n (enumerate_list q) off) = None
       \<or> fst (try_units terms n (enumerate_list q) off) = Some IndexError"
proof (cases "fst (try_units terms n (enumerate_list q) off)")
  case None
  then show ?thesis by simp
next
  case (Some e)
  then have "fst (try_units terms n (zip [0..<0 + length q] q) off) = Some e"
    by (simp add: enumerate_list_def)
  from try_units_error_cases[OF this] have "e = IndexError"
    using assms by (auto simp: all_set_conv_all_nth)
  then show ?thesis using Some by simp
qed

lemma score_query_literal:
  "\<forall>q\<in>set qs. q \<noteq> [] \<and> (\<forall>u\<in>set q. \<exists>t. u = Literal t) \<Longrightarrow>
   scoring_ok (length terms) st \<Longrightarrow> \<exists>st'. score_query terms n qs st = Inr st'"
proof (induction qs arbitrary: st)
  case Nil
  then show ?case by simp
next
  case (Cons q qs)
  have lit: "\<forall>u\<in>set q. \<exists>t. u = Literal t" and ne: "q \<noteq> []" using Cons.prems(1) by auto
  show ?case
  proof (cases "spec_matches terms n q")
    case True
    from score_query_first_match[OF ne True Cons.prems(2)] show ?thesis by simp
  next
    case False
    then have "fst (try_units terms n (enumerate_list q) None) = Some IndexError"
      using literal_try_units[OF lit, of terms n None] by (auto simp: spec_matches_def)
    from score_query_skip[OF this, of qs st]
    have s: "score_query terms n (q # qs) st = score_query terms n qs
         (st\<lparr>sc_offset := snd (try_units terms n (enumerate_list q) (sc_offset st))\<rparr>)" .
    have "scoring_ok (length terms)
         (st\<lparr>sc_offset := snd (try_units terms n (enumerate_list q) (sc_offset st))\<rparr>)"
      using Cons.prems(2) by (simp add: scoring_ok_def)
    from Cons.IH[OF _ this] show ?thesis using s Cons.prems(1) by simp
  qed
qed

lemma score_positions_literal:
  "\<forall>q\<in>set query. q \<noteq> [] \<and> (\<forall>u\<in>set q. \<exists>t. u = Literal t) \<Longrightarrow>
   scoring_ok (length terms) st \<Longrightarrow> \<exists>st'. score_positions terms query ns st = Inr st'"
proof (induction ns arbitrary: st)
  case Nil
  then show ?case by simp
next
  case (Cons n ns)
  obtain st1 where s: "score_query terms n query st = Inr st1"
    using score_query_literal[OF Cons.prems] by blast
  have "scoring_ok (length terms) st1" using score_query_ok[OF Cons.prems(2) s] .
  from Cons.IH[OF Cons.prems(1) this] show ?case using s by simp
qed

lemma scoring_init_ok:
  "scoring_ok m \<lparr>sc_scores = replicate m 0, sc_highlight = replicate m False, sc_offset = None\<rparr>"
  by (simp add: scoring_ok_def)

section \<open>The tokenizer\<close>

lemma space_not_word: "is_space c \<Longrightarrow> \<not> is_word c"
  by (auto simp: is_space_def is_word_def Let_def)
lemma space_not_digit: "is_space c \<Longrightarrow> \<not> is_digit c"
  by (auto simp: is_space_def is_digit_def Let_def)
lemma space_not_lt: "is_space c \<Longrightarrow> c \<noteq> CHR ''<''"
  by (auto simp: is_space_def Let_def)
lemma space_not_quote: "is_space c \<Longrightarrow> c \<noteq> CHR 0x27"
  by (auto simp: is_space_def Let_def)
lemma space_not_dash: "is_space c \<Longrightarrow> c \<noteq> CHR ''-''"
  by (auto simp: is_space_def Let_def)

lemma backtrack_Some:
  "backtrack f lo k = Some r \<Longrightarrow> \<exists>j. lo \<le> j \<and> j \<le> k \<and> f j = Some r"
proof (induction k)
  case 0
  then show ?case by (auto split: if_splits)
next
  case (Suc k)
  show ?case
  proof (cases "f (Suc k)")
    case None
    then have "backtrack f lo k = Some r" using Suc.prems by (simp split: if_splits)
    from Suc.IH[OF this] show ?thesis by (meson le_Suc_eq)
  next
    case (Some r')
    then have "r' = r \<and> lo \<le> Suc k" using Suc.prems by (simp split: if_splits)
    then show ?thesis using Some by blast
  qed
qed

lemma backtrack_first:
  "f k = Some r \<Longrightarrow> lo \<le> k \<Longrightarrow> backtrack f lo k = Some r"
  by (cases k) auto

lemma span_of_le: "span_of p hi s \<le> length s"
proof -
  have "length (takeWhile p xs) \<le> length xs" for xs by (rule length_takeWhile_le)
  then show ?thesis
    unfolding span_of_def by (cases hi) (auto intro: order_trans[OF length_takeWhile_le])
qed

lemma match_seq_le: "match_seq ps s = Some m \<Longrightarrow> m \<le> length s"
proof (induction ps arbitrary: s m)
  case Nil
  then show ?case by simp
next
  case (Cons p ps)
  obtain c lo hi where p: "p = Rep c lo hi" by (cases p)
  from Cons.prems obtain j where j: "j \<le> span_of (in_class c) hi s"
      "map_option (\<lambda>m. j + m) (match_seq ps (drop j s)) = Some m"
    unfolding p using backtrack_Some by fastforce
  then obtain m' where m': "match_seq ps (drop j s) = Some m'" "m = j + m'" by auto
  have "m' \<le> length s - j" using Cons.IH[OF m'(1)] by simp
  moreover have "j \<le> length s" using j(1) span_of_le[of "in_class c" hi s] by simp
  ultimately show ?case using m'(2) by simp
qed

lemma match_seq_min: "match_seq (Rep c lo hi # ps) s = Some m \<Longrightarrow> lo \<le> m"
proof -
  assume "match_seq (Rep c lo hi # ps) s = Some m"
  then obtain j where "lo \<le> j" "map_option (\<lambda>m. j + m) (match_seq ps (drop j s)) = Some m"
    using backtrack_Some by fastforce
  then show ?thesis by auto
qed

lemma match_seq_first_class:
  assumes "match_seq (Rep c lo hi # ps) s = Some m" "0 < lo"
  shows "s \<noteq> [] \<and> in_class c (hd s)"
proof -
  from assms(1) obtain j where j: "lo \<le> j" "j \<le> span_of (in_class c) hi s"
    using backtrack_Some by fastforce
  then have pos: "0 < span_of (in_class c) hi s" using assms(2) by simp
  let ?t = "case hi of None \<Rightarrow> s | Some h \<Rightarrow> take h s"
  have "takeWhile (in_class c) ?t \<noteq> []" using pos by (simp add: span_of_def)
  then have "?t \<noteq> [] \<and> in_class c (hd ?t)" by (cases ?t) (auto split: if_splits)
  then show ?thesis by (cases hi; cases s) (auto simp: hd_take split: if_splits)
qed


lemma match_seq_trailing_space:
  "match_seq (ps @ [star_of (Is Space)]) s = Some m \<Longrightarrow>
   drop m s = dropWhile is_space (drop m s)"
proof (induction ps arbitrary: s m)
  case Nil
  let ?k = "length (takeWhile is_space s)"
  have sp: "span_of (in_class (Is Space)) None s = ?k"
    by (simp add: span_of_def) (metis in_class.simps(1) in_item.simps(4) takeWhile_cong)
  have "match_seq [star_of (Is Space)] s = Some ?k"
    unfolding star_of_def by (simp add: sp backtrack_first)
  then have m: "m = ?k" using Nil by simp
  have "drop ?k s = dropWhile is_space s" by (rule dropWhile_eq_drop[symmetric])
  then show ?case unfolding m by simp
next
  case (Cons p ps)
  obtain c lo hi where p: "p = Rep c lo hi" by (cases p)
  from Cons.prems obtain j where
      "map_option (\<lambda>m. j + m) (match_seq (ps @ [star_of (Is Space)]) (drop j s)) = Some m"
    unfolding p using backtrack_Some by fastforce
  then obtain m' where m': "match_seq (ps @ [star_of (Is Space)]) (drop j s) = Some m'" "m = j + m'"
    by auto
  have "drop m s = drop m' (drop j s)" using m'(2) by (simp add: add.commute)
  then show ?case using Cons.IH[OF m'(1)] by simp
qed

lemma match_alt_Some:
  "match_alt re s = Some m \<Longrightarrow> \<exists>a\<in>set re. match_seq a s = Some m"
  by (induction re) (auto split: option.splits)

lemma match_alt_not_None:
  "a \<in> set re \<Longrightarrow> match_seq a s \<noteq> None \<Longrightarrow> match_alt re s \<noteq> None"
  by (induction re) (auto split: option.splits)

lemma chunk_re_shape:
  "a \<in> set chunk_re \<Longrightarrow>
   \<exists>c lo hi ps. a = Rep c lo hi # ps @ [star_of (Is Space)] \<and> 0 < lo
      \<and> (\<forall>x. is_space x \<longrightarrow> \<not> in_class c x)"
  unfolding chunk_re_def
  by (auto simp: one_def plus_of_def space_not_lt space_not_digit space_not_word
        space_not_quote space_not_dash)


lemma chunk_match:
  assumes "match_alt chunk_re s = Some m"
  shows "0 < m \<and> m \<le> length s \<and> s \<noteq> [] \<and> \<not> is_space (hd s)
         \<and> drop m s = dropWhile is_space (drop m s)"
proof -
  obtain a where a: "a \<in> set chunk_re" "match_seq a s = Some m"
    using match_alt_Some[OF assms] by blast
  obtain c lo hi ps where sh: "a = Rep c lo hi # ps @ [star_of (Is Space)]" "0 < lo"
      "\<forall>x. is_space x \<longrightarrow> \<not> in_class c x"
    using chunk_re_shape[OF a(1)] by blast
  have "lo \<le> m" using match_seq_min a(2) sh(1) by blast
  moreover have "m \<le> length s" using match_seq_le[OF a(2)] .
  moreover have "s \<noteq> [] \<and> in_class c (hd s)"
    using match_seq_first_class[of c lo hi "ps @ [star_of (Is Space)]" s m] a(2) sh(1,2) by simp
  moreover have "drop m s = dropWhile is_space (drop m s)"
    using match_seq_trailing_space[of "Rep c lo hi # ps" s m] a(2) sh(1) by simp
  ultimately show ?thesis using sh(2,3) by auto
qed

lemma chunk_match_exists:
  assumes "\<not> is_space x"
  shows "match_alt chunk_re (x # xs) \<noteq> None"
proof -
  let ?w = "AnyOf [Word, Chr (CHR 0x27), Chr CHR ''-'']"
  let ?p = "NoneOf [Word, Chr (CHR 0x27), Chr CHR ''-'', Space]"
  have ok: "match_seq [plus_of c, star_of (Is Space)] (x # xs) \<noteq> None" if "in_class c x" for c
  proof -
    let ?k = "span_of (in_class c) None (x # xs)"
    have k: "1 \<le> ?k" using that by (simp add: span_of_def)
    obtain r where r: "match_seq [star_of (Is Space)] (drop ?k (x # xs)) = Some r"
      unfolding star_of_def
      by (simp add: backtrack_first[where k = "span_of (in_class (Is Space)) None (drop ?k (x # xs))"])
    have "backtrack (\<lambda>j. map_option (\<lambda>m. j + m) (match_seq [star_of (Is Space)] (drop j (x # xs)))) 1 ?k
        = Some (?k + r)"
      by (rule backtrack_first) (use r k in auto)
    then show ?thesis by (simp add: plus_of_def)
  qed
  have "in_class ?w x \<or> in_class ?p x" using assms by auto
  then have "match_seq [plus_of ?w, star_of (Is Space)] (x # xs) \<noteq> None
      \<or> match_seq [plus_of ?p, star_of (Is Space)] (x # xs) \<noteq> None"
    using ok by blast
  moreover have "[plus_of ?w, star_of (Is Space)] \<in> set chunk_re"
    and "[plus_of ?p, star_of (Is Space)] \<in> set chunk_re"
    by (simp_all add: chunk_re_def)
  ultimately show ?thesis using match_alt_not_None by blast
qed

lemma findall_chunks:
  "concat (findall chunk_re s) = dropWhile is_space s \<and> [] \<notin> set (findall chunk_re s)"
proof (induction s rule: length_induct)
  case (1 s)
  show ?case
  proof (cases s)
    case Nil
    have "match_alt chunk_re [] = None" using chunk_match[of "[]"] by (cases "match_alt chunk_re []") auto
    then show ?thesis using Nil by simp
  next
    case (Cons x xs)
    show ?thesis
    proof (cases "match_alt chunk_re (x # xs)")
      case None
      then have "is_space x" using chunk_match_exists[of x xs] by auto
      then show ?thesis using None Cons "1.IH"[rule_format, of xs] by simp
    next
      case (Some m)
      note c = chunk_match[OF Some]
      let ?rest = "drop m (x # xs)"
      have "length ?rest < length s" using c Cons by simp
      then have ih: "concat (findall chunk_re ?rest) = dropWhile is_space ?rest
          \<and> [] \<notin> set (findall chunk_re ?rest)"
        using "1.IH" by blast
      have f: "findall chunk_re (x # xs) = take m (x # xs) # findall chunk_re ?rest"
        using Some c by simp
      have "concat (findall chunk_re (x # xs)) = take m (x # xs) @ ?rest"
        unfolding f using ih c by simp
      then have "concat (findall chunk_re (x # xs)) = dropWhile is_space (x # xs)"
        using c by simp
      moreover have "take m (x # xs) \<noteq> []" using c by (cases m) auto
      ultimately show ?thesis using Cons f ih by auto
    qed
  qed
qed

section \<open>Chunks kept and pieces of the output\<close>

lemma drop_tags_filter:
  "[] \<notin> set ws \<Longrightarrow> drop_tags ws = Inr (filter (\<lambda>w. hd w \<noteq> CHR ''<'') ws)"
  by (induction ws) (auto split: list.splits)

lemma drop_tags_kept: "drop_tags (findall chunk_re input) = Inr (kept_chunks input)"
  unfolding kept_chunks_def using findall_chunks[of input] by (intro drop_tags_filter) simp

lemma create_sample_pieces:
  "\<forall>n\<in>set ns. n < length words \<Longrightarrow>
   set (create_sample words selected flags hl ns in_phrase)
     \<subseteq> set words \<union> {fst hl, snd hl, ''... ''}"
  by (induction ns arbitrary: in_phrase) auto

lemma add_markers_pieces:
  "\<forall>n\<in>set ns. n < length words \<Longrightarrow>
   set (add_markers words flags hl ns) \<subseteq> set words \<union> {fst hl, snd hl}"
  by (induction ns) auto

section \<open>The selection loops\<close>

lemma flatten_scores_apply:
  "flatten_scores scores ns sb s =
     (if filter (\<lambda>n. scores ! n = s) ns = [] then sb s
      else Some (bucket sb s @ filter (\<lambda>n. scores ! n = s) ns))"
proof (induction ns arbitrary: sb)
  case Nil
  show ?case by simp
next
  case (Cons n ns)
  let ?sb = "sb(scores ! n \<mapsto> (case sb (scores ! n) of None \<Rightarrow> [] | Some l \<Rightarrow> l) @ [n])"
  have f: "flatten_scores scores (n # ns) sb s = flatten_scores scores ns ?sb s" by simp
  show ?case unfolding f Cons.IH[of ?sb] by (auto simp: bucket_def)
qed

lemma bucket_flatten:
  "bucket (flatten_scores scores ns Map.empty) s = filter (\<lambda>n. scores ! n = s) ns"
  by (simp add: bucket_def[of "flatten_scores scores ns Map.empty"]
        flatten_scores_apply[of scores ns Map.empty s] bucket_def[of Map.empty])

lemma select_positions_append:
  "select_positions words maxlen (xs @ ys) (c, sel)
     = (case select_positions words maxlen xs (c, sel) of
          (stop, c', sel') \<Rightarrow>
            if stop then (True, c', sel') else select_positions words maxlen ys (c', sel'))"
  by (induction xs arbitrary: c sel) (auto simp: Let_def)

lemma select_scores_flat:
  "select_scores sb words maxlen ss (c, sel)
     = snd (snd (select_positions words maxlen (concat (map (bucket sb) ss)) (c, sel)))"
proof (induction ss arbitrary: c sel)
  case Nil
  show ?case by simp
next
  case (Cons s ss)
  obtain stop c' sel' where p: "select_positions words maxlen (bucket sb s) (c, sel) = (stop, c', sel')"
    by (cases "select_positions words maxlen (bucket sb s) (c, sel)")
  show ?case
  proof (cases "sb s")
    case None
    then have "bucket sb s = []" by (simp add: bucket_def)
    then show ?thesis using None Cons.IH by simp
  next
    case (Some ns)
    then have b: "bucket sb s = ns" by (simp add: bucket_def)
    show ?thesis using Some p Cons.IH[of c' sel'] unfolding b[symmetric]
      by (simp add: select_positions_append b)
  qed
qed

lemma select_words_flat:
  "scores \<noteq> [] \<Longrightarrow>
   select_words words scores maxlen
     = Inr (snd (snd (select_positions words maxlen
          (concat (map (bucket (flatten_scores scores [0..<length words] Map.empty))
                    (rev [0..fold max (tl scores) (hd scores)])))
          (0, replicate (length words) False))))"
  by (cases scores) (simp_all add: select_words_def max_score_def Let_def select_scores_flat)


lemma visit_order_eq:
  assumes "scores \<noteq> []"
  shows "visit_order scores
     = concat (map (\<lambda>s. filter (\<lambda>n. scores ! n = s) [0..<length scores])
                (rev [0..Max (set scores)]))"
proof -
  obtain x xs where xs: "scores = x # xs" using assms by (cases scores) auto
  have "fold max xs x = Max (set scores)" unfolding xs by (rule Max.set_eq_fold[symmetric])
  then have "max_score scores = Inr (Max (set scores))" by (simp add: max_score_def xs)
  then show ?thesis by (simp add: visit_order_def bucket_flatten[abs_def])
qed

lemma select_words_visit_order:
  assumes "scores \<noteq> []" "length scores = length words"
  shows "select_words words scores maxlen
     = Inr (snd (snd (select_positions words maxlen (visit_order scores)
                        (0, replicate (length words) False))))"
proof -
  obtain x xs where xs: "scores = x # xs" using assms by (cases scores) auto
  have "max_score scores = Inr (fold max xs x)" by (simp add: max_score_def xs)
  then show ?thesis
    using assms(2) by (simp add: select_words_def visit_order_def Let_def select_scores_flat)
qed

lemma bucket_sorted:
  "sorted_wrt (considered_before scores) (filter (\<lambda>n. scores ! n = s) [0..<m])"
proof -
  have "sorted_wrt (<) (filter (\<lambda>n. scores ! n = s) [0..<m])"
    by (intro sorted_wrt_filter) (simp add: sorted_wrt_upt)
  then show ?thesis
    by (rule sorted_wrt_mono_rel[rotated]) (auto simp: considered_before_def)
qed

lemma buckets_sorted:
  "sorted_wrt (>) ss \<Longrightarrow>
   sorted_wrt (considered_before scores)
     (concat (map (\<lambda>s. filter (\<lambda>n. scores ! n = s) [0..<m]) ss))"
proof (induction ss)
  case Nil
  show ?case by simp
next
  case (Cons s ss)
  have "considered_before scores x y"
    if "x \<in> set (filter (\<lambda>n. scores ! n = s) [0..<m])"
      and "y \<in> set (concat (map (\<lambda>s. filter (\<lambda>n. scores ! n = s) [0..<m]) ss))" for x y
  proof -
    have "scores ! x = s" using that(1) by simp
    moreover have "scores ! y \<in> set ss" using that(2) by auto
    ultimately show ?thesis using Cons.prems by (auto simp: considered_before_def)
  qed
  then show ?case using Cons bucket_sorted[of scores s m] by (simp add: sorted_wrt_append)
qed

lemma visit_order_sorted:
  "scores \<noteq> [] \<Longrightarrow> sorted_wrt (considered_before scores) (visit_order scores)"
proof -
  assume ne: "scores \<noteq> []"
  have "sorted_wrt (<) [0..Max (set scores)]" by (simp add: sorted_wrt_upto)
  then have "sorted_wrt (>) (rev [0..Max (set scores)])" by (simp add: sorted_wrt_rev)
  from buckets_sorted[OF this] show ?thesis unfolding visit_order_eq[OF ne] .
qed

lemma sorted_wrt_irrefl_distinct:
  "sorted_wrt R xs \<Longrightarrow> (\<And>x. \<not> R x x) \<Longrightarrow> distinct xs"
  by (induction xs) auto

lemma visit_order_distinct: "scores \<noteq> [] \<Longrightarrow> distinct (visit_order scores)"
proof -
  assume "scores \<noteq> []"
  then have "sorted_wrt (considered_before scores) (visit_order scores)" by (rule visit_order_sorted)
  then show ?thesis
    by (rule sorted_wrt_irrefl_distinct) (simp add: considered_before_def)
qed

lemma visit_order_set:
  assumes "scores \<noteq> []" "\<forall>s\<in>set scores. 0 \<le> s"
  shows "set (visit_order scores) = {0..<length scores}"
proof -
  have "\<exists>s\<in>{0..Max (set scores)}. scores ! n = s" if "n < length scores" for n
  proof -
    have "scores ! n \<in> set scores" using that by simp
    then have "0 \<le> scores ! n \<and> scores ! n \<le> Max (set scores)" using assms(2) by simp
    then show ?thesis by simp
  qed
  then show ?thesis unfolding visit_order_eq[OF assms(1)] by auto
qed


lemma select_positions_take:
  "\<exists>k\<le>length ns.
      snd (snd (select_positions words maxlen ns (c, sel)))
        = fold (\<lambda>n s. s[n := True]) (take k ns) sel
    \<and> (\<forall>i<k. c + charcost words (take (Suc i) ns) < maxlen)
    \<and> (k < length ns \<longrightarrow> maxlen \<le> c + charcost words (take (Suc k) ns))"
proof (induction ns arbitrary: c sel)
  case Nil
  show ?case by simp
next
  case (Cons n ns)
  let ?c = "c + (int (length (words ! n)) + 1)"
  show ?case
  proof (cases "maxlen \<le> ?c")
    case True
    then have "snd (snd (select_positions words maxlen (n # ns) (c, sel)))
        = fold (\<lambda>n s. s[n := True]) (take 0 (n # ns)) sel
      \<and> (\<forall>i<0. c + charcost words (take (Suc i) (n # ns)) < maxlen)
      \<and> (0 < length (n # ns) \<longrightarrow> maxlen \<le> c + charcost words (take (Suc 0) (n # ns)))"
      by (simp add: charcost_def Let_def)
    then show ?thesis by blast
  next
    case False
    obtain k where k: "k \<le> length ns"
      "snd (snd (select_positions words maxlen ns (?c, sel[n := True])))
        = fold (\<lambda>n s. s[n := True]) (take k ns) (sel[n := True])"
      "\<forall>i<k. ?c + charcost words (take (Suc i) ns) < maxlen"
      "k < length ns \<longrightarrow> maxlen \<le> ?c + charcost words (take (Suc k) ns)"
      using Cons.IH[of ?c "sel[n := True]"] by blast
    have c: "c + charcost words (take (Suc i) (n # ns)) = ?c + charcost words (take i ns)" for i
      by (simp add: charcost_def)
    have 1: "snd (snd (select_positions words maxlen (n # ns) (c, sel)))
        = fold (\<lambda>n s. s[n := True]) (take (Suc k) (n # ns)) sel"
      using False k(2) by (simp add: Let_def)
    have 2: "\<forall>i<Suc k. c + charcost words (take (Suc i) (n # ns)) < maxlen"
    proof (intro allI impI)
      fix i assume i: "i < Suc k"
      show "c + charcost words (take (Suc i) (n # ns)) < maxlen"
      proof (cases i)
        case 0
        then show ?thesis using False by (simp add: charcost_def)
      next
        case (Suc i')
        then have "i' < k" using i by simp
        then show ?thesis using k(3) Suc unfolding c by simp
      qed
    qed
    have 3: "Suc k < length (n # ns) \<longrightarrow> maxlen \<le> c + charcost words (take (Suc (Suc k)) (n # ns))"
      using k(4) unfolding c by simp
    have "Suc k \<le> length (n # ns)" using k(1) by simp
    then show ?thesis using 1 2 3 by blast
  qed
qed

lemma fold_set_True:
  "length (fold (\<lambda>n s. s[n := True]) xs sel) = length sel
   \<and> (\<forall>p<length sel. fold (\<lambda>n s. s[n := True]) xs sel ! p \<longleftrightarrow> sel ! p \<or> p \<in> set xs)"
proof (induction xs arbitrary: sel)
  case Nil
  show ?case by simp
next
  case (Cons a xs)
  have "sel[a := True] ! p \<longleftrightarrow> sel ! p \<or> p = a" if "p < length sel" for p
    using that by (cases "p = a") (simp_all add: nth_list_update)
  then show ?case using Cons[of "sel[a := True]"] by auto
qed

lemma selection_prefix:
  assumes ne: "scores \<noteq> []" and len: "length scores = length words"
    and sel: "select_words words scores maxlen = Inr selected"
  shows "\<exists>k\<le>length (visit_order scores).
      length selected = length words
    \<and> (\<forall>p<length words. selected ! p \<longleftrightarrow> p \<in> set (take k (visit_order scores)))
    \<and> (\<forall>i<k. charcost words (take (Suc i) (visit_order scores)) < maxlen)
    \<and> (k < length (visit_order scores)
          \<longrightarrow> maxlen \<le> charcost words (take (Suc k) (visit_order scores)))"
proof -
  let ?order = "visit_order scores"
  let ?init = "replicate (length words) False"
  have s: "selected = snd (snd (select_positions words maxlen ?order (0, ?init)))"
    using select_words_visit_order[OF ne len, of maxlen] sel by simp
  obtain k where k: "k \<le> length ?order"
      "selected = fold (\<lambda>n s. s[n := True]) (take k ?order) ?init"
      "\<forall>i<k. 0 + charcost words (take (Suc i) ?order) < maxlen"
      "k < length ?order \<longrightarrow> maxlen \<le> 0 + charcost words (take (Suc k) ?order)"
    using select_positions_take[of ?order words maxlen 0 ?init] unfolding s[symmetric] by blast
  have "length selected = length words
      \<and> (\<forall>p<length words. selected ! p \<longleftrightarrow> p \<in> set (take k ?order))"
    using fold_set_True[of "take k ?order" ?init] unfolding k(2)[symmetric] by simp
  then show ?thesis using k(1,3,4) by auto
qed

lemma charcost_pos: "ns \<noteq> [] \<Longrightarrow> 0 < charcost words ns"
proof (induction ns)
  case Nil
  then show ?case by simp
next
  case (Cons n ns)
  have "0 \<le> charcost words ns" unfolding charcost_def by (rule sum_list_nonneg) auto
  then show ?case by (simp add: charcost_def)
qed

lemma selected_chars_prefix:
  assumes "distinct order" "set order \<subseteq> {0..<length words}"
    and "\<forall>p<length words. selected ! p \<longleftrightarrow> p \<in> set (take k order)"
  shows "selected_chars words selected = charcost words (take k order)"
proof -
  let ?f = "\<lambda>n. int (length (words ! n)) + 1"
  let ?sel = "filter (\<lambda>p. selected ! p) [0..<length words]"
  have "set (take k order) \<subseteq> {0..<length words}"
    using assms(2) set_take_subset[of k order] by blast
  then have "set ?sel = set (take k order)" using assms(3) by auto
  moreover have "distinct ?sel" by simp
  moreover have "distinct (take k order)" using assms(1) by simp
  ultimately have "sum_list (map ?f ?sel) = sum_list (map ?f (take k order))"
    by (simp add: sum_list_distinct_conv_sum_set)
  then show ?thesis by (simp add: selected_chars_def charcost_def)
qed

lemma selection_downward:
  assumes srt: "sorted_wrt R order" and asym: "\<And>x y. R x y \<Longrightarrow> \<not> R y x"
    and j: "j \<in> set (take k order)" and i: "i \<in> set order" and r: "R i j"
  shows "i \<in> set (take k order)"
proof -
  obtain b where b: "b < length (take k order)" "take k order ! b = j"
    using j by (auto simp: in_set_conv_nth)
  then have b': "b < k" "b < length order" "order ! b = j" by auto
  obtain a where a: "a < length order" "order ! a = i" using i by (auto simp: in_set_conv_nth)
  have "a < k"
  proof (rule ccontr)
    assume "\<not> a < k"
    then have "b < a" using b'(1) by simp
    then have "R (order ! b) (order ! a)" using srt a(1) by (simp add: sorted_wrt_iff_nth_less)
    then show False using asym[OF r] a(2) b'(3) by simp
  qed
  then have "a < length (take k order) \<and> take k order ! a = i" using a by simp
  then show ?thesis by (metis nth_mem)
qed

section \<open>Both methods work on the kept chunks\<close>

lemma makeSample_of_kept:
  "makeSample self input query maxlen hl
     = (if kept_chunks input = [] then Inr input
        else sample_of_chunks self (kept_chunks input) query maxlen hl)"
  by (simp add: makeSample_def sample_of_chunks_def drop_tags_kept split: sum.splits)

lemma highlight_of_kept:
  "highlight self input query hl True = highlight_of_chunks self (kept_chunks input) query hl"
  by (simp add: highlight_def highlight_of_chunks_def drop_tags_kept)

lemma highlight_of_all:
  "highlight self input query hl False = highlight_of_chunks self (findall chunk_re input) query hl"
  by (simp add: highlight_def highlight_of_chunks_def)

section \<open>Writes of the scoring pass\<close>

text \<open>
  For a specification that is not empty: a match at \<open>n\<close> makes \<open>n + j\<close> an index of the
  lists for every offset \<open>j\<close> of the specification; the left taper ends without an
  exception for any position \<open>n\<close> of the list, the right taper for any \<open>n + offset\<close>
  of the list; so the whole \<open>try\<close> body reaches its \<open>break\<close>: no write raised
  \<open>IndexError\<close>. For any query the pass never ends with \<open>IndexError\<close>, and with
  literal units only, none of the specifications empty, it ends with no exception at all.
\<close>

lemma scoring_writes_in_bounds:
  assumes "scoring_ok (length terms) st"
  shows "(spec_matches terms n q \<longrightarrow> (\<forall>j<length q. n + j < length terms))
    \<and> (n < length scores \<longrightarrow> fst (taper_left n [1..WINDOW - 1] scores) = None)
    \<and> (n + offset < length scores \<longrightarrow>
         fst (taper_right n (Some offset) (length scores) [1..WINDOW - 1] scores) = None)
    \<and> (q \<noteq> [] \<and> spec_matches terms n q \<longrightarrow> fst (score_spec terms n q st) = None)
    \<and> scoring_pass terms query \<noteq> Inl IndexError
    \<and> ((\<forall>q\<in>set query. q \<noteq> [] \<and> (\<forall>u\<in>set q. \<exists>t. u = Literal t)) \<longrightarrow>
         (\<exists>st'. scoring_pass terms query = Inr st' \<and> scoring_ok (length terms) st'))"
proof (intro conjI impI)
  assume "spec_matches terms n q"
  then show "\<forall>j<length q. n + j < length terms" using spec_matches_iff[of terms n q] by blast
next
  assume "n < length scores"
  then show "fst (taper_left n [1..WINDOW - 1] scores) = None"
    by (rule taper_left_done) simp
next
  assume "n + offset < length scores"
  then have "int n + int offset + 1 \<le> int (length scores)" by simp
  then show "fst (taper_right n (Some offset) (length scores) [1..WINDOW - 1] scores) = None"
    by (rule taper_right_done) simp
next
  assume "q \<noteq> [] \<and> spec_matches terms n q"
  then show "fst (score_spec terms n q st) = None"
    using score_spec_break[of q terms n st] assms by simp
next
  show "scoring_pass terms query \<noteq> Inl IndexError"
    unfolding scoring_pass_def by (rule score_positions_never_IndexError)
next
  assume lit: "\<forall>q\<in>set query. q \<noteq> [] \<and> (\<forall>u\<in>set q. \<exists>t. u = Literal t)"
  obtain st' where s: "scoring_pass terms query = Inr st'"
    unfolding scoring_pass_def
    using score_positions_literal[OF lit scoring_init_ok[of "length terms"]] by blast
  then show "\<exists>st'. scoring_pass terms query = Inr st' \<and> scoring_ok (length terms) st'"
    using scoring_pass_ok[OF s] by simp
qed

section \<open>The claims\<close>

text \<open>
  Claim C1, as the code has it. In \<open>makeSample\<close> the first specification of the query that
  matches at position \<open>n\<close> (the ones before it being non-matches, that is ended by
  \<open>IndexError\<close>) is the only one that contributes at \<open>n\<close>: the loop over the query
  returns the scores and flags this specification's scoring leaves, whatever
  specifications come later. In \<open>highlight\<close> nothing is skipped: after the loop over the
  query the flag of a position is set exactly when it was set before or some matching
  specification of the query, first or not, covers the position.
\<close>

theorem first_match_only_in_makeSample:
  assumes "scoring_ok (length terms) st" and "length flags = length terms"
  shows "((\<forall>q'\<in>set before. fst (try_units terms n (enumerate_list q') None) = Some IndexError)
           \<and> spec_matches terms n q \<and> q \<noteq> []
          \<longrightarrow> (\<exists>off. score_query terms n (before @ q # later) st
                       = Inr (snd (score_spec terms n q (st\<lparr>sc_offset := off\<rparr>)))))
       \<and> (highlight_query terms n query flags = Inr flags'
          \<longrightarrow> (\<forall>i<length terms. flags' ! i \<longleftrightarrow>
                 flags ! i \<or> (\<exists>q\<in>set query. spec_matches terms n q \<and> n \<le> i \<and> i < n + length q)))"
proof (intro conjI impI)
  assume a: "(\<forall>q'\<in>set before. fst (try_units terms n (enumerate_list q') None) = Some IndexError)
           \<and> spec_matches terms n q \<and> q \<noteq> []"
  then obtain off where off: "score_query terms n (before @ q # later) st
      = score_query terms n (q # later) (st\<lparr>sc_offset := off\<rparr>)"
    using score_query_skip_all[of before terms n "q # later" st] by blast
  have "scoring_ok (length terms) (st\<lparr>sc_offset := off\<rparr>)"
    using assms(1) by (simp add: scoring_ok_def)
  then have "score_query terms n (q # later) (st\<lparr>sc_offset := off\<rparr>)
      = Inr (snd (score_spec terms n q (st\<lparr>sc_offset := off\<rparr>)))"
    using a by (intro score_query_first_match) auto
  then show "\<exists>off. score_query terms n (before @ q # later) st
                       = Inr (snd (score_spec terms n q (st\<lparr>sc_offset := off\<rparr>)))"
    using off by auto
next
  assume "highlight_query terms n query flags = Inr flags'"
  from highlight_query_flags[OF this assms(2)]
  show "\<forall>i<length terms. flags' ! i \<longleftrightarrow>
          flags ! i \<or> (\<exists>q\<in>set query. spec_matches terms n q \<and> n \<le> i \<and> i < n + length q)"
    by blast
qed

text \<open>
  The theorem at the terms of \<open>a b\<close> and the query \<open>[[z], [a], [a, b]]\<close>, position
  0: \<open>[z]\<close> is a non-match, \<open>[a]\<close> the first match, and the hypotheses hold.
\<close>

theorem first_match_only_in_makeSample_witness:
  "scoring_ok (length [''a'', ''b''])
     \<lparr>sc_scores = [0, 0], sc_highlight = [False, False], sc_offset = None\<rparr>
   \<and> fst (try_units [''a'', ''b''] 0 (enumerate_list [Literal ''z'']) None) = Some IndexError
   \<and> spec_matches [''a'', ''b''] 0 [Literal ''a'']
   \<and> (\<exists>off. score_query [''a'', ''b''] 0
               ([[Literal ''z'']] @ [Literal ''a''] # [[Literal ''a'', Literal ''b'']])
               \<lparr>sc_scores = [0, 0], sc_highlight = [False, False], sc_offset = None\<rparr>
          = Inr (snd (score_spec [''a'', ''b''] 0 [Literal ''a'']
                  (\<lparr>sc_scores = [0, 0], sc_highlight = [False, False], sc_offset = None\<rparr>
                    \<lparr>sc_offset := off\<rparr>))))
   \<and> highlight_query [''a'', ''b''] 0 [[Literal ''z''], [Literal ''a''], [Literal ''a'', Literal ''b'']]
        [False, False] = Inr [True, True]
   \<and> (\<exists>q\<in>set [[Literal ''z''], [Literal ''a''], [Literal ''a'', Literal ''b'']].
         spec_matches [''a'', ''b''] 0 q \<and> 1 < 0 + length q)"
proof -
  let ?st = "\<lparr>sc_scores = [0, 0], sc_highlight = [False, False], sc_offset = None\<rparr>"
  let ?query = "[[Literal ''z''], [Literal ''a''], [Literal ''a'', Literal ''b'']]"
  have h1: "scoring_ok (length [''a'', ''b'']) ?st" by (simp add: scoring_ok_def)
  have h2: "length [False, False] = length [''a'', ''b'']" by simp
  have z: "fst (try_units [''a'', ''b''] 0 (enumerate_list [Literal ''z'']) None) = Some IndexError"
    by code_simp
  have m: "spec_matches [''a'', ''b''] 0 [Literal ''a'']" by code_simp
  have hq: "highlight_query [''a'', ''b''] 0 ?query [False, False] = Inr [True, True]"
    by code_simp
  note t = first_match_only_in_makeSample[OF h1 h2, where before = "[[Literal ''z'']]" and n = 0
      and q = "[Literal ''a'']" and later = "[[Literal ''a'', Literal ''b'']]"
      and query = ?query and flags' = "[True, True]"]
  have A: "\<exists>off. score_query [''a'', ''b''] 0
               ([[Literal ''z'']] @ [Literal ''a''] # [[Literal ''a'', Literal ''b'']]) ?st
          = Inr (snd (score_spec [''a'', ''b''] 0 [Literal ''a''] (?st\<lparr>sc_offset := off\<rparr>)))"
    using t z m by simp
  have "\<forall>i<length [''a'', ''b'']. [True, True] ! i \<longleftrightarrow> [False, False] ! i
       \<or> (\<exists>q\<in>set ?query. spec_matches [''a'', ''b''] 0 q \<and> 0 \<le> i \<and> i < 0 + length q)"
    using t hq by blast
  from this[rule_format, of 1]
  have B: "\<exists>q\<in>set ?query. spec_matches [''a'', ''b''] 0 q \<and> 1 < 0 + length q" by simp
  show ?thesis using h1 z m A hq B by blast
qed

text \<open>
  Claim C1 as stated fails in \<open>highlight\<close>: at position 0 of \<open>a b\<close> the specification
  \<open>[a]\<close> matches, and the later specification \<open>[a, b]\<close> still sets the flag of position
  1; \<open>makeSample\<close> on the same input leaves \<open>b\<close> unmarked.
\<close>

theorem first_match_counterexample:
  "spec_matches [''a'', ''b''] 0 [Literal ''a'']
   \<and> highlight_query [''a'', ''b''] 0 [[Literal ''a'']] [False, False] = Inr [True, False]
   \<and> highlight_query [''a'', ''b''] 0 [[Literal ''a''], [Literal ''a'', Literal ''b'']]
        [False, False] = Inr [True, True]
   \<and> highlight \<lparr>stem = Snowball id\<rparr> ''a b'' [[Literal ''a''], [Literal ''a'', Literal ''b'']]
        (''['', '']'') True = Inr ''[a ][b]''
   \<and> makeSample \<lparr>stem = Snowball id\<rparr> ''a b'' [[Literal ''a''], [Literal ''a'', Literal ''b'']]
        100 (''['', '']'') = Inr ''[a ]b''"
  by code_simp

text \<open>
  Claim C2 fails on the code: the highlighter built with no language (or an empty one)
  holds a \<open>NoStem\<close> instance, whose \<open>stemWord\<close> has a single formal parameter, so the
  call in \<open>_normalise_text\<close> raises \<open>TypeError\<close> for every input string.
\<close>

theorem no_language_normalise_raises:
  "normalise_text (Highlighter snowballstemmer None) s = Inl TypeError
   \<and> normalise_text (Highlighter snowballstemmer (Some [])) s = Inl TypeError
   \<and> normalise_text (Highlighter snowballstemmer None) ''Hello '' \<noteq> Inr ''hello''"
  by (simp add: normalise_text_def Highlighter_def call_method_def)

text \<open>
  Claim C5: for the text \<open>a b c d e\<close> and the specification \<open>[b]\<close>, with a stemmer whose
  \<open>stemWord\<close> returns its argument, the scoring pass of \<open>makeSample\<close> gives \<open>b\<close> the
  score \<open>WINDOW\<close>, \<open>a\<close> and \<open>c\<close> the score \<open>WINDOW - 1\<close>, \<open>d\<close> the score
  \<open>WINDOW - 2\<close> and \<open>e\<close> the score \<open>WINDOW - 3\<close>; \<open>WINDOW\<close> is 50.
\<close>

theorem single_literal_match_scores:
  "WINDOW = 50
   \<and> drop_tags (findall chunk_re ''a b c d e'') = Inr [''a '', ''b '', ''c '', ''d '', ''e'']
   \<and> normalise_words \<lparr>stem = Snowball id\<rparr> [''a '', ''b '', ''c '', ''d '', ''e'']
       = Inr [''a'', ''b'', ''c'', ''d'', ''e'']
   \<and> map_sum id sc_scores (scoring_pass [''a'', ''b'', ''c'', ''d'', ''e''] [[Literal ''b'']])
       = Inr [WINDOW - 1, WINDOW, WINDOW - 1, WINDOW - 2, WINDOW - 3]"
  by code_simp

text \<open>
  Claim C3, as the code has it. A predicate of the specification \<open>q\<close> raises \<open>e\<close> on the
  term at \<open>n + j\<close>, the units of \<open>q\<close> before it accepting their terms. When \<open>e\<close> is not
  \<open>IndexError\<close> and the evaluation is reached (the positions before \<open>n\<close> ran without an
  exception; the specifications before \<open>q\<close> did not match at \<open>n\<close>, or, in \<open>highlight\<close>,
  matched or did not), \<open>makeSample\<close> and \<open>highlight\<close> raise \<open>e\<close>. When \<open>e\<close> is
  \<open>IndexError\<close>, the \<open>except IndexError\<close> clause catches it and the loop goes on with
  the next specification, as after a term that does not match.
\<close>

theorem predicate_exception_fate:
  assumes "j < length q" and "q ! j = Predicate f" and "n + j < length terms"
    and "f (terms ! (n + j)) = Inl e"
    and "\<forall>i<j. unit_match terms (n + i) (q ! i) = Inr True"
  shows
   "(e \<noteq> IndexError
      \<and> (\<forall>q'\<in>set before. fst (try_units terms n (enumerate_list q') None) = Some IndexError)
      \<and> drop_tags (findall chunk_re input) = Inr words \<and> normalise_words self words = Inr terms
      \<and> score_positions terms (before @ q # qs) [0..<n]
           \<lparr>sc_scores = replicate (length terms) 0, sc_highlight = replicate (length terms) False,
            sc_offset = None\<rparr> = Inr st
     \<longrightarrow> makeSample self input (before @ q # qs) maxlen hl = Inl e)
    \<and> (e \<noteq> IndexError
      \<and> (\<forall>q'\<in>set before. spec_matches terms n q'
            \<or> fst (try_units terms n (enumerate_list q') None) = Some IndexError)
      \<and> (if no_tags then drop_tags (findall chunk_re input) else Inr (findall chunk_re input))
           = Inr words
      \<and> normalise_words self words = Inr terms
      \<and> highlight_positions terms (before @ q # qs) [0..<n] (replicate (length terms) False)
           = Inr flags
     \<longrightarrow> highlight self input (before @ q # qs) hl no_tags = Inl e)
    \<and> (e = IndexError
     \<longrightarrow> score_query terms n (q # qs) st' = score_query terms n qs (st'\<lparr>sc_offset := Some j\<rparr>)
         \<and> highlight_query terms n (q # qs) flags' = highlight_query terms n qs flags')"
proof -
  have t: "try_units terms n (enumerate_list q) off = (Some e, Some j)" for off
    using try_units_raises[of j q f n 0 terms e off] assms by (simp add: enumerate_list_def)
  have n: "n < length terms" using assms(3) by simp
  let ?query = "before @ q # qs"
  have A: "makeSample self input ?query maxlen hl = Inl e"
    if ne: "e \<noteq> IndexError"
      and b: "\<forall>q'\<in>set before. fst (try_units terms n (enumerate_list q') None) = Some IndexError"
      and w: "drop_tags (findall chunk_re input) = Inr words"
      and ts: "normalise_words self words = Inr terms"
      and p: "score_positions terms ?query [0..<n]
           \<lparr>sc_scores = replicate (length terms) 0, sc_highlight = replicate (length terms) False,
            sc_offset = None\<rparr> = Inr st"
  proof -
    obtain off where "score_query terms n ?query st = score_query terms n (q # qs) (st\<lparr>sc_offset := off\<rparr>)"
      using score_query_skip_all[OF b, of "q # qs" st] by blast
    then have "score_query terms n ?query st = Inl e"
      using score_query_raise[of terms n q None e qs] t ne by simp
    then have "score_positions terms ?query (n # [Suc n..<length terms]) st = Inl e" by simp
    then have "scoring_pass terms ?query = Inl e"
      unfolding scoring_pass_def upt_split_at[OF n] using score_positions_append[OF p] by simp
    moreover have "length words \<noteq> 0" using normalise_words_length[OF ts] n by auto
    ultimately show ?thesis using w ts by (simp add: makeSample_def)
  qed
  have B: "highlight self input ?query hl no_tags = Inl e"
    if ne: "e \<noteq> IndexError"
      and b: "\<forall>q'\<in>set before. spec_matches terms n q'
            \<or> fst (try_units terms n (enumerate_list q') None) = Some IndexError"
      and w: "(if no_tags then drop_tags (findall chunk_re input) else Inr (findall chunk_re input))
           = Inr words"
      and ts: "normalise_words self words = Inr terms"
      and p: "highlight_positions terms ?query [0..<n] (replicate (length terms) False) = Inr flags"
  proof -
    have len: "length flags = length terms" using highlight_positions_length[OF p] by simp
    obtain fl where "highlight_query terms n ?query flags = highlight_query terms n (q # qs) fl"
      using highlight_query_skip_all[OF b len, of "q # qs"] by blast
    then have "highlight_query terms n ?query flags = Inl e"
      using highlight_query_raise[of terms n q None e qs] t ne by simp
    then have "highlight_positions terms ?query (n # [Suc n..<length terms]) flags = Inl e" by simp
    then have "highlight_positions terms ?query [0..<length terms] (replicate (length terms) False) = Inl e"
      unfolding upt_split_at[OF n] using highlight_positions_append[OF p] by simp
    then show ?thesis using w ts normalise_words_length[OF ts] by (simp add: highlight_def)
  qed
  have C: "score_query terms n (q # qs) st' = score_query terms n qs (st'\<lparr>sc_offset := Some j\<rparr>)
         \<and> highlight_query terms n (q # qs) flags' = highlight_query terms n qs flags'"
    if "e = IndexError"
    using score_query_skip[of terms n q qs st'] highlight_query_skip[of terms n q qs flags'] t that
    by simp
  show ?thesis using A B C by blast
qed

text \<open>
  The theorem at the text \<open>a b\<close> and a one-unit query whose predicate raises on every
  term, \<open>KeyError\<close> first and \<open>IndexError\<close> second: its hypotheses hold there.
\<close>

theorem predicate_exception_fate_witness:
  "always_raises (OtherError ''KeyError'') ([''a'', ''b''] ! (0 + 0)) = Inl (OtherError ''KeyError'')
   \<and> drop_tags (findall chunk_re ''a b'') = Inr [''a '', ''b'']
   \<and> normalise_words \<lparr>stem = Snowball id\<rparr> [''a '', ''b''] = Inr [''a'', ''b'']
   \<and> makeSample \<lparr>stem = Snowball id\<rparr> ''a b''
        ([] @ [Predicate (always_raises (OtherError ''KeyError''))] # []) 100 (''['', '']'')
        = Inl (OtherError ''KeyError'')
   \<and> highlight \<lparr>stem = Snowball id\<rparr> ''a b''
        ([] @ [Predicate (always_raises (OtherError ''KeyError''))] # []) (''['', '']'') True
        = Inl (OtherError ''KeyError'')
   \<and> highlight_query [''a'', ''b''] 0 ([Predicate (always_raises IndexError)] # []) [False, False]
        = highlight_query [''a'', ''b''] 0 [] [False, False]"
proof -
  let ?k = "OtherError ''KeyError''"
  let ?st = "\<lparr>sc_scores = replicate (length [''a'', ''b'']) 0,
              sc_highlight = replicate (length [''a'', ''b'']) False, sc_offset = None\<rparr>"
  have h1: "(0::nat) < length [Predicate (always_raises e)]" for e by simp
  have h2: "[Predicate (always_raises e)] ! 0 = Predicate (always_raises e)" for e by simp
  have h3: "0 + 0 < length [''a'', ''b'']" by simp
  have h4: "always_raises e ([''a'', ''b''] ! (0 + 0)) = Inl e" for e by (simp add: always_raises_def)
  have h5: "\<forall>i<0. unit_match [''a'', ''b''] (0 + i) ([Predicate (always_raises e)] ! i) = Inr True" for e
    by simp
  have w: "drop_tags (findall chunk_re ''a b'') = Inr [''a '', ''b'']" by code_simp
  have ts: "normalise_words \<lparr>stem = Snowball id\<rparr> [''a '', ''b''] = Inr [''a'', ''b'']" by code_simp
  note t = predicate_exception_fate[OF h1 h2 h3 h4 h5, where before = "[]" and qs = "[]"
      and input = "''a b''" and words = "[''a '', ''b'']" and self = "\<lparr>stem = Snowball id\<rparr>"
      and no_tags = True and st = ?st and flags = "replicate (length [''a'', ''b'']) False"
      and maxlen = 100 and hl = "(''['', '']'')"]
  have A: "makeSample \<lparr>stem = Snowball id\<rparr> ''a b''
        ([] @ [Predicate (always_raises ?k)] # []) 100 (''['', '']'') = Inl ?k"
    using t[of ?k, THEN conjunct1] w ts by simp
  have B: "highlight \<lparr>stem = Snowball id\<rparr> ''a b''
        ([] @ [Predicate (always_raises ?k)] # []) (''['', '']'') True = Inl ?k"
    using t[of ?k, THEN conjunct2, THEN conjunct1] w ts by simp
  have C: "highlight_query [''a'', ''b''] 0 ([Predicate (always_raises IndexError)] # []) [False, False]
        = highlight_query [''a'', ''b''] 0 [] [False, False]"
    using t[of IndexError, THEN conjunct2, THEN conjunct2] by simp
  show ?thesis using h4[of ?k] w ts A B C by simp
qed

text \<open>
  Claim C3 as stated fails for \<open>IndexError\<close>: with a predicate that raises it on every
  term, both methods return normally, no term marked, as if nothing had matched.
\<close>

theorem predicate_IndexError_counterexample:
  "always_raises IndexError ''a'' = Inl IndexError
   \<and> makeSample \<lparr>stem = Snowball id\<rparr> ''a b'' [[Predicate (always_raises IndexError)]] 100
        (''['', '']'') = Inr ''a b''
   \<and> highlight \<lparr>stem = Snowball id\<rparr> ''a b'' [[Predicate (always_raises IndexError)]]
        (''['', '']'') True = Inr ''a b''"
  by code_simp

text \<open>
  Claim C8. The specification \<open>q\<close> matches at position \<open>n\<close> exactly when, for every
  offset \<open>j\<close> below its length, position \<open>n + j\<close> exists and the unit \<open>q ! j\<close> accepts
  the term there. A specification that runs past the end of the terms does not match, and
  its trial ends with the \<open>IndexError\<close> of the lookup, unless a predicate raised on a
  term inside the sequence before the end was reached; an \<open>IndexError\<close> makes both loops
  go on with the next specification, nothing changed but the loop variable \<open>offset\<close>.
  The phrase \<open>[new, found, land]\<close> matches at \<open>n\<close> exactly when the three terms from
  \<open>n\<close> on are \<open>new\<close>, \<open>found\<close>, \<open>land\<close> in this order; it matches nowhere in
  \<open>new land found\<close>.
\<close>

theorem phrase_match_contract:
  "(spec_matches terms n q \<longleftrightarrow>
      (\<forall>j<length q. n + j < length terms \<and> unit_accepts (q ! j) (terms ! (n + j))))
   \<and> (n < length terms \<and> length terms < n + length q \<longrightarrow>
        \<not> spec_matches terms n q
        \<and> (fst (try_units terms n (enumerate_list q) None) = Some IndexError
           \<or> (\<exists>j f e. j < length q \<and> n + j < length terms \<and> q ! j = Predicate f
                 \<and> f (terms ! (n + j)) = Inl e
                 \<and> fst (try_units terms n (enumerate_list q) None) = Some e)))
   \<and> (fst (try_units terms n (enumerate_list q) None) = Some IndexError \<longrightarrow>
        score_query terms n (q # qs) st
          = score_query terms n qs
              (st\<lparr>sc_offset := snd (try_units terms n (enumerate_list q) (sc_offset st))\<rparr>)
        \<and> highlight_query terms n (q # qs) flags = highlight_query terms n qs flags)
   \<and> (spec_matches terms n [Literal ''new'', Literal ''found'', Literal ''land''] \<longleftrightarrow>
        n + 2 < length terms \<and> terms ! n = ''new'' \<and> terms ! (n + 1) = ''found''
        \<and> terms ! (n + 2) = ''land'')
   \<and> \<not> spec_matches [''new'', ''land'', ''found''] n
        [Literal ''new'', Literal ''found'', Literal ''land'']"
proof (intro conjI impI)
  show "spec_matches terms n q \<longleftrightarrow>
      (\<forall>j<length q. n + j < length terms \<and> unit_accepts (q ! j) (terms ! (n + j)))"
    by (rule spec_matches_iff)
next
  assume past: "n < length terms \<and> length terms < n + length q"
  show "\<not> spec_matches terms n q"
  proof
    assume m: "spec_matches terms n q"
    have "q \<noteq> []" using past by auto
    from spec_matches_in_range[OF m this] show False using past by simp
  qed
  then obtain e where e: "fst (try_units terms n (enumerate_list q) None) = Some e"
    by (auto simp: spec_matches_def)
  then have "fst (try_units terms n (zip [0..<0 + length q] q) None) = Some e"
    by (simp add: enumerate_list_def)
  from try_units_error_cases[OF this] e
  show "fst (try_units terms n (enumerate_list q) None) = Some IndexError
           \<or> (\<exists>j f e. j < length q \<and> n + j < length terms \<and> q ! j = Predicate f
                 \<and> f (terms ! (n + j)) = Inl e
                 \<and> fst (try_units terms n (enumerate_list q) None) = Some e)"
    by auto
next
  assume i: "fst (try_units terms n (enumerate_list q) None) = Some IndexError"
  show "score_query terms n (q # qs) st
          = score_query terms n qs
              (st\<lparr>sc_offset := snd (try_units terms n (enumerate_list q) (sc_offset st))\<rparr>)"
    by (rule score_query_skip[OF i])
  show "highlight_query terms n (q # qs) flags = highlight_query terms n qs flags"
    by (rule highlight_query_skip[OF i])
next
  show "spec_matches terms n [Literal ''new'', Literal ''found'', Literal ''land''] \<longleftrightarrow>
        n + 2 < length terms \<and> terms ! n = ''new'' \<and> terms ! (n + 1) = ''found''
        \<and> terms ! (n + 2) = ''land''"
    unfolding spec_matches_iff by (auto simp: All_less_Suc numeral_2_eq_2)
  show "\<not> spec_matches [''new'', ''land'', ''found''] n
        [Literal ''new'', Literal ''found'', Literal ''land'']"
    unfolding spec_matches_iff by (auto simp: All_less_Suc nth_Cons split: nat.splits)
qed

text \<open>
  The theorem at the terms \<open>new found land\<close>: the phrase matches at 0, by the first
  part from right to left; at 1 it runs past the end, is no match, and the trial ends
  with \<open>IndexError\<close>. A predicate unit accepts \<open>newfoundland\<close>.
\<close>

theorem phrase_match_contract_witness:
  "spec_matches [''new'', ''found'', ''land''] 0 [Literal ''new'', Literal ''found'', Literal ''land'']
   \<and> 1 < length [''new'', ''found'', ''land'']
   \<and> length [''new'', ''found'', ''land''] < 1 + length [Literal ''new'', Literal ''found'', Literal ''land'']
   \<and> \<not> spec_matches [''new'', ''found'', ''land''] 1 [Literal ''new'', Literal ''found'', Literal ''land'']
   \<and> fst (try_units [''new'', ''found'', ''land''] 1
           (enumerate_list [Literal ''new'', Literal ''found'', Literal ''land'']) None)
       = Some IndexError
   \<and> highlight_query [''new'', ''found'', ''land''] 1
        ([Literal ''new'', Literal ''found'', Literal ''land''] # []) [False, False, False]
       = highlight_query [''new'', ''found'', ''land''] 1 [] [False, False, False]
   \<and> spec_matches [''newfoundland''] 0 [Predicate (startswith ''new'')]
   \<and> \<not> spec_matches [''oldfoundland''] 0 [Predicate (startswith ''new'')]"
proof -
  let ?q = "[Literal ''new'', Literal ''found'', Literal ''land'']"
  let ?t = "[''new'', ''found'', ''land'']"
  have A: "spec_matches ?t 0 ?q"
    by (rule phrase_match_contract[THEN conjunct1, THEN iffD2])
       (simp add: numeral_3_eq_3 All_less_Suc)
  have past: "1 < length ?t \<and> length ?t < 1 + length ?q" by simp
  have B: "\<not> spec_matches ?t 1 ?q"
    using phrase_match_contract[of ?t 1 ?q, THEN conjunct2, THEN conjunct1] past by blast
  have C: "fst (try_units ?t 1 (enumerate_list ?q) None) = Some IndexError" by code_simp
  have D: "highlight_query ?t 1 (?q # []) [False, False, False]
       = highlight_query ?t 1 [] [False, False, False]"
    using phrase_match_contract[of ?t 1 ?q, THEN conjunct2, THEN conjunct2, THEN conjunct1] C
    by blast
  have E: "spec_matches [''newfoundland''] 0 [Predicate (startswith ''new'')]"
    by (rule phrase_match_contract[THEN conjunct1, THEN iffD2]) (simp add: startswith_def)
  have F: "\<not> spec_matches [''oldfoundland''] 0 [Predicate (startswith ''new'')]"
    using phrase_match_contract[of "[''oldfoundland'']" 0 "[Predicate (startswith ''new'')]", THEN conjunct1]
    by (simp add: startswith_def)
  show ?thesis using A past B C D E F by blast
qed

text \<open>
  Claim C10 fails on the code for a query that holds an empty specification, as
  \<open>make_hl_terms\<close> builds one from the query \<open>"a b" " "\<close>. The first loop of the
  \<open>try\<close> block runs zero times on it, which counts as a match, and the right taper then
  reads \<open>offset\<close> as an earlier trial left it. On the text \<open>x a\<close> the trial of
  \<open>[a, b]\<close> at position 1 leaves \<open>offset\<close> at 1, so the taper starts at index 3 of
  lists of length 2, past the index \<open>lenwords\<close> its test \<open>r == lenwords\<close> looks for:
  the write raises \<open>IndexError\<close>, which the \<open>except\<close> clause catches. With nothing
  assigned to \<open>offset\<close> before, the read itself raises \<open>UnboundLocalError\<close>, which
  leaves \<open>makeSample\<close>. \<open>highlight\<close> has no such read and returns.
\<close>

theorem empty_specification_out_of_bounds:
  "spec_matches [''x'', ''a''] 1 []
   \<and> snd (try_units [''x'', ''a''] 1 (enumerate_list [Literal ''a'', Literal ''b'']) None) = Some 1
   \<and> taper_right 1 (Some 1) (length [''x'', ''a'']) [1..WINDOW - 1] [49, 49]
       = (Some IndexError, [49, 49])
   \<and> fst (score_spec [''x'', ''a''] 1 []
          \<lparr>sc_scores = [0, 49], sc_highlight = [False, False], sc_offset = Some 1\<rparr>)
       = Some IndexError
   \<and> map_sum id sc_scores (scoring_pass [''x'', ''a''] [[Literal ''a'', Literal ''b''], []])
       = Inr [49, 49]
   \<and> makeSample \<lparr>stem = Snowball id\<rparr> ''x a'' [[Literal ''a'', Literal ''b''], []] 100
         (''['', '']'') = Inr ''x a''
   \<and> makeSample \<lparr>stem = Snowball id\<rparr> ''a b'' [[]] 100 (''['', '']'') = Inl UnboundLocalError
   \<and> highlight \<lparr>stem = Snowball id\<rparr> ''a b'' [[]] (''['', '']'') True = Inr ''a b''"
  by code_simp

text \<open>
  Claim C4, as the code has it. \<open>findall\<close> skips a character at which no alternative of
  the pattern matches, and every alternative starts with a character that is not white
  space; white space after a chunk belongs to the chunk. So the chunks of any text,
  concatenated, are the text without its leading white space: the original text exactly
  when it is empty or starts with a character that is not white space.
\<close>

theorem chunks_concat_roundtrip:
  "concat (findall chunk_re input) = dropWhile is_space input
   \<and> (concat (findall chunk_re input) = input
        \<longleftrightarrow> (case input of [] \<Rightarrow> True | c # _ \<Rightarrow> \<not> is_space c))"
proof -
  have c: "concat (findall chunk_re input) = dropWhile is_space input"
    using findall_chunks[of input] by simp
  have "dropWhile is_space input = input \<longleftrightarrow> (case input of [] \<Rightarrow> True | c # _ \<Rightarrow> \<not> is_space c)"
  proof (cases input)
    case Nil
    then show ?thesis by simp
  next
    case (Cons x xs)
    have "length (dropWhile is_space xs) \<le> length xs" by (rule length_dropWhile_le)
    then have "dropWhile is_space xs \<noteq> x # xs" by auto
    then show ?thesis using Cons by simp
  qed
  then show ?thesis using c by simp
qed

text \<open>
  Claim C4 as stated fails on a text that begins with a space: the space is in no chunk.
\<close>

theorem leading_space_counterexample:
  "findall chunk_re '' a b'' = [''a '', ''b'']
   \<and> concat (findall chunk_re '' a b'') = ''a b''
   \<and> concat (findall chunk_re '' a b'') \<noteq> '' a b''"
  by code_simp

text \<open>
  Claim C9, as the code has it. The chunks \<open>makeSample\<close> works on, and \<open>highlight\<close> when
  \<open>no_tags\<close> is true, are the chunks of the text that do not start with \<open><\<close>, tags
  or not: \<open>a < b\<close> loses its chunk \<open><\<close>. Everything after the removal is done on
  these chunks alone: the terms that are matched are their terms, so that the phrase
  \<open>[a, b]\<close> matches across the tag of \<open>a <i>b\<close>, and two texts with the same kept
  chunks give the same result. The output is put together from these chunks, the two
  markers and, in \<open>makeSample\<close>, the ellipsis. The exception is \<open>makeSample\<close> on a
  text of which no chunk is left: it returns the text itself.
\<close>

theorem tag_chunks_removed:
  "drop_tags (findall chunk_re input) = Inr (kept_chunks input)
   \<and> (\<forall>w\<in>set (kept_chunks input). w \<noteq> [] \<and> hd w \<noteq> CHR ''<'')
   \<and> makeSample self input query maxlen hl
       = (if kept_chunks input = [] then Inr input
          else sample_of_chunks self (kept_chunks input) query maxlen hl)
   \<and> highlight self input query hl True
       = highlight_of_chunks self (kept_chunks input) query hl
   \<and> (kept_chunks input = kept_chunks input' \<longrightarrow>
        highlight self input query hl True = highlight self input' query hl True
        \<and> (kept_chunks input \<noteq> [] \<longrightarrow>
             makeSample self input query maxlen hl = makeSample self input' query maxlen hl))
   \<and> (makeSample self input query maxlen hl = Inr out \<longrightarrow>
        (if kept_chunks input = [] then out = input
         else \<exists>pieces. out = concat pieces
                \<and> set pieces \<subseteq> set (kept_chunks input) \<union> {fst hl, snd hl, ''... ''}))
   \<and> (highlight self input query hl True = Inr out \<longrightarrow>
        (\<exists>pieces. out = concat pieces
           \<and> set pieces \<subseteq> set (kept_chunks input) \<union> {fst hl, snd hl}))
   \<and> findall chunk_re ''a < b'' = [''a '', ''< '', ''b'']
   \<and> kept_chunks ''a < b'' = [''a '', ''b'']
   \<and> highlight \<lparr>stem = Snowball id\<rparr> ''a <i>b'' [[Literal ''a'', Literal ''b'']]
         (''['', '']'') True = Inr ''[a ][b]''
   \<and> makeSample \<lparr>stem = Snowball id\<rparr> ''a <i>b'' [[Literal ''a'', Literal ''b'']] 100
         (''['', '']'') = Inr ''[a ][b]''"
proof (intro conjI impI)
  show "drop_tags (findall chunk_re input) = Inr (kept_chunks input)" by (rule drop_tags_kept)
  show "\<forall>w\<in>set (kept_chunks input). w \<noteq> [] \<and> hd w \<noteq> CHR ''<''"
    using findall_chunks[of input] by (auto simp: kept_chunks_def)
  show "makeSample self input query maxlen hl
       = (if kept_chunks input = [] then Inr input
          else sample_of_chunks self (kept_chunks input) query maxlen hl)"
    by (rule makeSample_of_kept)
  show "highlight self input query hl True
       = highlight_of_chunks self (kept_chunks input) query hl"
    by (rule highlight_of_kept)
  show "findall chunk_re ''a < b'' = [''a '', ''< '', ''b'']" by code_simp
  show "kept_chunks ''a < b'' = [''a '', ''b'']" by code_simp
  show "highlight \<lparr>stem = Snowball id\<rparr> ''a <i>b'' [[Literal ''a'', Literal ''b'']]
         (''['', '']'') True = Inr ''[a ][b]''" by code_simp
  show "makeSample \<lparr>stem = Snowball id\<rparr> ''a <i>b'' [[Literal ''a'', Literal ''b'']] 100
         (''['', '']'') = Inr ''[a ][b]''" by code_simp
next
  assume "kept_chunks input = kept_chunks input'"
  then show "highlight self input query hl True = highlight self input' query hl True"
    by (simp add: highlight_of_kept)
next
  assume "kept_chunks input = kept_chunks input'" and "kept_chunks input \<noteq> []"
  then show "makeSample self input query maxlen hl = makeSample self input' query maxlen hl"
    by (simp add: makeSample_of_kept)
next
  assume m: "makeSample self input query maxlen hl = Inr out"
  let ?words = "kept_chunks input"
  show "if ?words = [] then out = input
         else \<exists>pieces. out = concat pieces
                \<and> set pieces \<subseteq> set ?words \<union> {fst hl, snd hl, ''... ''}"
  proof (cases "?words = []")
    case True
    then show ?thesis using m by (simp add: makeSample_def drop_tags_kept)
  next
    case False
    have "\<exists>selected flags.
        out = concat (create_sample ?words selected flags hl [0..<length ?words] False)"
      using m False by (simp add: makeSample_def drop_tags_kept split: sum.splits) blast
    then obtain selected flags where
      "out = concat (create_sample ?words selected flags hl [0..<length ?words] False)"
      by blast
    moreover have "set (create_sample ?words selected flags hl [0..<length ?words] False)
        \<subseteq> set ?words \<union> {fst hl, snd hl, ''... ''}"
      by (rule create_sample_pieces) simp
    ultimately show ?thesis using False by auto
  qed
next
  assume h: "highlight self input query hl True = Inr out"
  let ?words = "kept_chunks input"
  have "\<exists>flags. out = concat (add_markers ?words flags hl [0..<length ?words])"
    using h by (simp add: highlight_def drop_tags_kept split: sum.splits) blast
  then obtain flags where "out = concat (add_markers ?words flags hl [0..<length ?words])"
    by blast
  moreover have "set (add_markers ?words flags hl [0..<length ?words]) \<subseteq> set ?words \<union> {fst hl, snd hl}"
    by (rule add_markers_pieces) simp
  ultimately show "\<exists>pieces. out = concat pieces
           \<and> set pieces \<subseteq> set ?words \<union> {fst hl, snd hl}" by auto
qed

text \<open>
  The theorem at the text \<open>a <i>b</i> < c\<close> and the query \<open>[[b]]\<close>: both methods
  return, and what they return is made of kept chunks and markers; and at the texts
  \<open>a <i>b\<close> and \<open>a b\<close>, which have the same kept chunks and so the same result.
\<close>

theorem tag_chunks_removed_witness:
  "kept_chunks ''a <i>b</i> < c'' = [''a '', ''b'', ''c'']
   \<and> makeSample \<lparr>stem = Snowball id\<rparr> ''a <i>b</i> < c'' [[Literal ''b'']] 100 (''['', '']'')
       = Inr ''a [b]c''
   \<and> highlight \<lparr>stem = Snowball id\<rparr> ''a <i>b</i> < c'' [[Literal ''b'']] (''['', '']'') True
       = Inr ''a [b]c''
   \<and> (\<exists>pieces. ''a [b]c'' = concat pieces
         \<and> set pieces \<subseteq> set (kept_chunks ''a <i>b</i> < c'')
               \<union> {fst (''['', '']''), snd (''['', '']''), ''... ''})
   \<and> (\<exists>pieces. ''a [b]c'' = concat pieces
         \<and> set pieces \<subseteq> set (kept_chunks ''a <i>b</i> < c'')
               \<union> {fst (''['', '']''), snd (''['', '']'')})
   \<and> kept_chunks ''a <i>b'' = kept_chunks ''a b''
   \<and> kept_chunks ''a <i>b'' \<noteq> []
   \<and> highlight \<lparr>stem = Snowball id\<rparr> ''a <i>b'' [[Literal ''a'', Literal ''b'']] (''['', '']'') True
       = highlight \<lparr>stem = Snowball id\<rparr> ''a b'' [[Literal ''a'', Literal ''b'']] (''['', '']'') True
   \<and> makeSample \<lparr>stem = Snowball id\<rparr> ''a <i>b'' [[Literal ''a'', Literal ''b'']] 100 (''['', '']'')
       = makeSample \<lparr>stem = Snowball id\<rparr> ''a b'' [[Literal ''a'', Literal ''b'']] 100 (''['', '']'')"
proof -
  let ?h = "\<lparr>stem = Snowball id\<rparr>"
  have k: "kept_chunks ''a <i>b</i> < c'' = [''a '', ''b'', ''c'']" by code_simp
  have m: "makeSample ?h ''a <i>b</i> < c'' [[Literal ''b'']] 100 (''['', '']'') = Inr ''a [b]c''"
    by code_simp
  have h: "highlight ?h ''a <i>b</i> < c'' [[Literal ''b'']] (''['', '']'') True = Inr ''a [b]c''"
    by code_simp
  note t = tag_chunks_removed[where input = "''a <i>b</i> < c''" and self = ?h
      and query = "[[Literal ''b'']]" and maxlen = 100 and hl = "(''['', '']'')"
      and out = "''a [b]c''", THEN conjunct2, THEN conjunct2, THEN conjunct2, THEN conjunct2,
      THEN conjunct2]
  have ne: "kept_chunks ''a <i>b</i> < c'' \<noteq> []" using k by simp
  have A: "\<exists>pieces. ''a [b]c'' = concat pieces
         \<and> set pieces \<subseteq> set (kept_chunks ''a <i>b</i> < c'')
               \<union> {fst (''['', '']''), snd (''['', '']''), ''... ''}"
    using t[THEN conjunct1] m ne by presburger
  have B: "\<exists>pieces. ''a [b]c'' = concat pieces
         \<and> set pieces \<subseteq> set (kept_chunks ''a <i>b</i> < c'')
               \<union> {fst (''['', '']''), snd (''['', '']'')}"
    using t[THEN conjunct2, THEN conjunct1] h by blast
  have e: "kept_chunks ''a <i>b'' = kept_chunks ''a b''" by code_simp
  have e': "kept_chunks ''a <i>b'' \<noteq> []" by code_simp
  note x = tag_chunks_removed[where input = "''a <i>b''" and input' = "''a b''" and self = ?h
      and query = "[[Literal ''a'', Literal ''b'']]" and maxlen = 100 and hl = "(''['', '']'')",
      THEN conjunct2, THEN conjunct2, THEN conjunct2, THEN conjunct2, THEN conjunct1]
  have C: "highlight ?h ''a <i>b'' [[Literal ''a'', Literal ''b'']] (''['', '']'') True
       = highlight ?h ''a b'' [[Literal ''a'', Literal ''b'']] (''['', '']'') True"
    using x e by blast
  have D: "makeSample ?h ''a <i>b'' [[Literal ''a'', Literal ''b'']] 100 (''['', '']'')
       = makeSample ?h ''a b'' [[Literal ''a'', Literal ''b'']] 100 (''['', '']'')"
    using x e e' by blast
  show ?thesis using k m h A B e e' C D by blast
qed

text \<open>
  Claim C9 as stated fails where nothing is left: the only chunk of the text \<open>< \<close>
  starts with \<open><\<close> and is removed, and \<open>makeSample\<close> returns the text, chunk included;
  so it does for a tag.
\<close>

theorem removed_chunk_returned_counterexample:
  "findall chunk_re ''< '' = [''< '']
   \<and> kept_chunks ''< '' = []
   \<and> makeSample \<lparr>stem = Snowball id\<rparr> ''< '' [[Literal ''a'']] 100 (''<b>'', ''</b>'') = Inr ''< ''
   \<and> makeSample \<lparr>stem = Snowball id\<rparr> ''<br>'' [[Literal ''a'']] 100 (''<b>'', ''</b>'') = Inr ''<br>''"
  by code_simp

text \<open>
  Claim C6, as the code has it. The selection visits the positions in the order
  \<open>visit_order\<close>, adding \<open>len(chunk) + 1\<close> to the counter at each; the positions
  selected are the first \<open>k\<close> of that order, where \<open>k\<close> is the first index at which the
  counter reaches \<open>maxlen\<close> (all of them when it never does): the position that reaches
  it is not selected and nothing after it is. The sum of \<open>len(chunk) + 1\<close> over the
  selected positions is below \<open>maxlen\<close> when \<open>maxlen\<close> is positive; when \<open>maxlen\<close> is
  zero or negative nothing is selected and the sum is 0.
\<close>

theorem selection_budget:
  assumes "scoring_ok (length words) st" and "words \<noteq> []"
    and "select_words words (sc_scores st) maxlen = Inr selected"
  shows "\<exists>k\<le>length (visit_order (sc_scores st)).
      (\<forall>p<length words. selected ! p \<longleftrightarrow> p \<in> set (take k (visit_order (sc_scores st))))
    \<and> (\<forall>i<k. charcost words (take (Suc i) (visit_order (sc_scores st))) < maxlen)
    \<and> (k < length (visit_order (sc_scores st))
          \<longrightarrow> maxlen \<le> charcost words (take (Suc k) (visit_order (sc_scores st))))
    \<and> selected_chars words selected = charcost words (take k (visit_order (sc_scores st)))
    \<and> (0 < maxlen \<longrightarrow> selected_chars words selected < maxlen)
    \<and> (maxlen \<le> 0 \<longrightarrow> k = 0 \<and> selected_chars words selected = 0)"
proof -
  let ?scores = "sc_scores st"
  let ?order = "visit_order ?scores"
  have len: "length ?scores = length words" and nn: "\<forall>s\<in>set ?scores. 0 \<le> s"
    using assms(1) by (auto simp: scoring_ok_def)
  have ne: "?scores \<noteq> []" using len assms(2) by auto
  obtain k where k: "k \<le> length ?order"
      "\<forall>p<length words. selected ! p \<longleftrightarrow> p \<in> set (take k ?order)"
      "\<forall>i<k. charcost words (take (Suc i) ?order) < maxlen"
      "k < length ?order \<longrightarrow> maxlen \<le> charcost words (take (Suc k) ?order)"
    using selection_prefix[OF ne len assms(3)] by blast
  have sc: "selected_chars words selected = charcost words (take k ?order)"
    using visit_order_distinct[OF ne] visit_order_set[OF ne nn] len k(2)
    by (intro selected_chars_prefix) auto
  have pos: "selected_chars words selected < maxlen" if "0 < maxlen"
  proof (cases k)
    case 0
    then show ?thesis using that sc by (simp add: charcost_def)
  next
    case (Suc i)
    then show ?thesis using k(3) sc by auto
  qed
  have zero: "k = 0 \<and> selected_chars words selected = 0" if "maxlen \<le> 0"
  proof -
    have "k = 0"
    proof (rule ccontr)
      assume "k \<noteq> 0"
      then have "charcost words (take (Suc 0) ?order) < maxlen" and "take (Suc 0) ?order \<noteq> []"
        using k(1,3) by auto
      then show False using charcost_pos[of "take (Suc 0) ?order" words] that by simp
    qed
    then show ?thesis using sc by (simp add: charcost_def)
  qed
  show ?thesis using k sc pos zero by blast
qed

text \<open>
  The theorem at the words and scores of \<open>a b c d e\<close> with the query \<open>[[b]]\<close> and
  \<open>maxlen\<close> 5: only \<open>b\<close> is selected, 3 characters counted.
\<close>

theorem selection_budget_witness:
  "scoring_ok (length [''a '', ''b '', ''c '', ''d '', ''e''])
     \<lparr>sc_scores = [49, 50, 49, 48, 47], sc_highlight = [False, True, False, False, False],
      sc_offset = Some 0\<rparr>
   \<and> select_words [''a '', ''b '', ''c '', ''d '', ''e''] [49, 50, 49, 48, 47] 5
       = Inr [False, True, False, False, False]
   \<and> visit_order [49, 50, 49, 48, 47] = [1, 0, 2, 3, 4]
   \<and> selected_chars [''a '', ''b '', ''c '', ''d '', ''e''] [False, True, False, False, False] = 3
   \<and> selected_chars [''a '', ''b '', ''c '', ''d '', ''e''] [False, True, False, False, False] < 5"
proof -
  let ?words = "[''a '', ''b '', ''c '', ''d '', ''e'']"
  let ?st = "\<lparr>sc_scores = [49, 50, 49, 48, 47], sc_highlight = [False, True, False, False, False],
      sc_offset = Some 0\<rparr>"
  have h1: "scoring_ok (length ?words) ?st" by (simp add: scoring_ok_def)
  have h2: "?words \<noteq> []" by simp
  have h3: "select_words ?words (sc_scores ?st) 5 = Inr [False, True, False, False, False]"
    by code_simp
  have v: "visit_order [49, 50, 49, 48, 47] = [1, 0, 2, 3, 4]" by code_simp
  have c: "selected_chars ?words [False, True, False, False, False] = 3" by code_simp
  have "selected_chars ?words [False, True, False, False, False] < 5"
    using selection_budget[OF h1 h2 h3] by auto
  then show ?thesis using h1 h3 v c by simp
qed

text \<open>
  Claim C6 as stated fails for \<open>maxlen = 0\<close>: nothing is selected, the sum over the
  selected positions is 0, and 0 is not below 0.
\<close>

theorem zero_budget_counterexample:
  "select_words [''a '', ''b''] [50, 49] 0 = Inr [False, False]
   \<and> selected_chars [''a '', ''b''] [False, False] = 0
   \<and> \<not> selected_chars [''a '', ''b''] [False, False] < 0
   \<and> makeSample \<lparr>stem = Snowball id\<rparr> ''a b'' [[Literal ''a'']] 0 (''['', '']'') = Inr ''''"
  by code_simp

text \<open>
  Claim C7. The selection of \<open>makeSample\<close> is the loop over the positions in the order
  \<open>visit_order\<close>, which lists every position once, a position of higher score before one
  of lower score and, of two positions of one score, the lower index first. So whenever
  a position is selected, every position that comes before it in this order is selected
  too; of two positions of one score of which just one is selected, it is the earlier.
\<close>

theorem selection_order:
  assumes "scoring_ok (length words) st" and "words \<noteq> []"
    and "select_words words (sc_scores st) maxlen = Inr selected"
  shows "select_words words (sc_scores st) maxlen
       = Inr (snd (snd (select_positions words maxlen (visit_order (sc_scores st))
                          (0, replicate (length words) False))))
    \<and> sorted_wrt (considered_before (sc_scores st)) (visit_order (sc_scores st))
    \<and> distinct (visit_order (sc_scores st))
    \<and> set (visit_order (sc_scores st)) = {0..<length words}
    \<and> (\<forall>i j. i < length words \<and> j < length words \<and> considered_before (sc_scores st) i j
              \<and> selected ! j \<longrightarrow> selected ! i)
    \<and> (\<forall>i j. i < j \<and> j < length words \<and> sc_scores st ! i = sc_scores st ! j
              \<and> selected ! i \<noteq> selected ! j \<longrightarrow> selected ! i \<and> \<not> selected ! j)"
proof -
  let ?scores = "sc_scores st"
  let ?order = "visit_order ?scores"
  have len: "length ?scores = length words" and nn: "\<forall>s\<in>set ?scores. 0 \<le> s"
    using assms(1) by (auto simp: scoring_ok_def)
  have ne: "?scores \<noteq> []" using len assms(2) by auto
  have srt: "sorted_wrt (considered_before ?scores) ?order" by (rule visit_order_sorted[OF ne])
  have st: "set ?order = {0..<length words}" using visit_order_set[OF ne nn] len by simp
  obtain k where k: "\<forall>p<length words. selected ! p \<longleftrightarrow> p \<in> set (take k ?order)"
    using selection_prefix[OF ne len assms(3)] by blast
  have down: "selected ! i"
    if "i < length words" "j < length words" "considered_before ?scores i j" "selected ! j" for i j
  proof -
    have "j \<in> set (take k ?order)" using k that(2,4) by simp
    moreover have "i \<in> set ?order" using st that(1) by simp
    moreover have "\<not> considered_before ?scores y x" if "considered_before ?scores x y" for x y
      using that unfolding considered_before_def by linarith
    ultimately have "i \<in> set (take k ?order)"
      using selection_downward[OF srt, of j k i] that(3) by blast
    then show ?thesis using k that(1) by simp
  qed
  have tie: "selected ! i \<and> \<not> selected ! j"
    if "i < j" "j < length words" "?scores ! i = ?scores ! j" "selected ! i \<noteq> selected ! j" for i j
  proof -
    have "considered_before ?scores i j" using that(1,3) by (simp add: considered_before_def)
    then have "selected ! j \<longrightarrow> selected ! i" using down[of i j] that(1,2) by simp
    then show ?thesis using that(4) by auto
  qed
  have d: "\<forall>i j. i < length words \<and> j < length words \<and> considered_before ?scores i j
              \<and> selected ! j \<longrightarrow> selected ! i"
    using down by blast
  have t: "\<forall>i j. i < j \<and> j < length words \<and> ?scores ! i = ?scores ! j
              \<and> selected ! i \<noteq> selected ! j \<longrightarrow> selected ! i \<and> \<not> selected ! j"
    using tie by blast
  show ?thesis
    by (intro conjI select_words_visit_order[OF ne len] srt visit_order_distinct[OF ne] st d t)
qed

text \<open>
  The theorem at three words of score 0 and a budget that admits one of them: the first
  is the one selected, the second is not.
\<close>

theorem selection_order_witness:
  "scoring_ok (length [''a '', ''b '', ''c''])
     \<lparr>sc_scores = [0, 0, 0], sc_highlight = [False, False, False], sc_offset = None\<rparr>
   \<and> select_words [''a '', ''b '', ''c''] [0, 0, 0] 4 = Inr [True, False, False]
   \<and> visit_order [0, 0, 0] = [0, 1, 2]
   \<and> sorted_wrt (considered_before [0, 0, 0]) (visit_order [0, 0, 0])
   \<and> [True, False, False] ! 0 \<and> \<not> [True, False, False] ! 1
   \<and> makeSample \<lparr>stem = Snowball id\<rparr> ''a b c'' [] 4 (''['', '']'') = Inr ''a ... ''"
proof -
  let ?words = "[''a '', ''b '', ''c'']"
  let ?st = "\<lparr>sc_scores = [0, 0, 0], sc_highlight = [False, False, False], sc_offset = None\<rparr>"
  have h1: "scoring_ok (length ?words) ?st" by (simp add: scoring_ok_def)
  have h2: "?words \<noteq> []" by simp
  have h3: "select_words ?words (sc_scores ?st) 4 = Inr [True, False, False]" by code_simp
  have v: "visit_order [0, 0, 0] = [0, 1, 2]" by code_simp
  have m: "makeSample \<lparr>stem = Snowball id\<rparr> ''a b c'' [] 4 (''['', '']'') = Inr ''a ... ''"
    by code_simp
  note t = selection_order[OF h1 h2 h3]
  have s: "sorted_wrt (considered_before [0, 0, 0]) (visit_order [0, 0, 0])"
    using t by simp
  have "\<forall>i j. i < j \<and> j < length ?words \<and> sc_scores ?st ! i = sc_scores ?st ! j
          \<and> [True, False, False] ! i \<noteq> [True, False, False] ! j
          \<longrightarrow> [True, False, False] ! i \<and> \<not> [True, False, False] ! j"
    using t by blast
  from this[rule_format, of 0 1]
  have tie: "[True, False, False] ! 0 \<and> \<not> [True, False, False] ! 1" by simp
  show ?thesis using h1 h3 v s tie m by simp
qed

end
